theory Spec2Isabelle
  imports Complex_Main "HOL-Library.AList" "HOL-Library.Multiset"
begin

section \<open>Data model of the dependency mapper\<close>

text \<open>
  A node is a container or service name. A Python \<open>defaultdict(set)\<close> keyed by node is an
  association list in insertion order whose values are the sets, each written as the list
  of its members in the order Python iterates them. Python fixes no iteration order for a
  set, so every list order of a value is a possible input.
\<close>

type_synonym node = string
type_synonym depmap = "(node \<times> node list) list"

text \<open>\<open>s.add(x)\<close> and \<open>s.update(xs)\<close> on a set.\<close>

definition set_add :: "'a \<Rightarrow> 'a list \<Rightarrow> 'a list" where
  "set_add x xs = (if x \<in> set xs then xs else xs @ [x])"

definition set_update :: "'a list \<Rightarrow> 'a list \<Rightarrow> 'a list" where
  "set_update xs ys = fold set_add ys xs"

text \<open>\<open>d[k]\<close> read on a \<open>defaultdict(set)\<close> or \<open>defaultdict(list)\<close> (a missing key reads
  as the empty collection), and \<open>d.get(k, [])\<close>.\<close>

definition dd_get :: "('k \<times> 'v list) list \<Rightarrow> 'k \<Rightarrow> 'v list" where
  "dd_get d k = (case map_of d k of None \<Rightarrow> [] | Some vs \<Rightarrow> vs)"

text \<open>\<open>d[source].add(target)\<close>: how every extractor records one relationship fact.\<close>

definition add_fact :: "node \<times> node \<Rightarrow> depmap \<Rightarrow> depmap" where
  "add_fact f d = AList.update (fst f) (set_add (snd f) (dd_get d (fst f))) d"

definition record_facts :: "(node \<times> node) list \<Rightarrow> depmap" where
  "record_facts fs = fold add_fact fs []"

text \<open>\<open>for k, deps in src.items(): acc[k].update(deps)\<close>.\<close>

definition dd_update_all :: "depmap \<Rightarrow> depmap \<Rightarrow> depmap" where
  "dd_update_all src acc =
     fold (\<lambda>(k, vs) a. AList.update k (set_update (dd_get a k) vs) a) src acc"

text \<open>The part of the mapper object that the graph stages read: \<open>inventory\<close>, the keys of
  \<open>self.dependencies["containers"]\<close>, and the four internal tracking dictionaries.\<close>

record mapper =
  inventory :: "node list"
  container_dependencies :: depmap
  network_dependencies :: depmap
  volume_dependencies :: depmap
  compose_dependencies :: depmap

record edge =
  e_from :: node
  e_to :: node
  e_type :: string

section \<open>Graph builder\<close>

text \<open>Lines 485-502 of \<open>build_dependency_graph\<close>: the four dictionaries merged in the
  order container, network, volume, compose.\<close>

definition all_dependencies :: "mapper \<Rightarrow> depmap" where
  "all_dependencies m =
     dd_update_all (compose_dependencies m)
       (dd_update_all (volume_dependencies m)
         (dd_update_all (network_dependencies m)
           (dd_update_all (container_dependencies m) [])))"

text \<open>Lines 504-510 (and 581-583): the node set, keys first and then every value.\<close>

definition all_nodes :: "depmap \<Rightarrow> node list" where
  "all_nodes deps = fold (\<lambda>vs acc. set_update acc vs) (map snd deps) (set_update [] (map fst deps))"

text \<open>Lines 512-522: one edge dictionary per key and member.\<close>

definition graph_edges :: "depmap \<Rightarrow> edge list" where
  "graph_edges deps =
     concat (map (\<lambda>(source, targets).
        map (\<lambda>target. \<lparr>e_from = source, e_to = target, e_type = ''depends_on''\<rparr>) targets) deps)"

text \<open>The (source, target) pairs of a dictionary, in iteration order.\<close>

definition dep_edges :: "depmap \<Rightarrow> (node \<times> node) list" where
  "dep_edges deps = concat (map (\<lambda>(s, ts). map (Pair s) ts) deps)"

section \<open>Phases and the duration estimator\<close>

text \<open>
  A phase dictionary. The level phases carry no \<open>special\<close> and no \<open>cycles\<close> key and
  the fallback phase no \<open>description\<close>: an absent key is \<open>False\<close>, the empty list or
  the empty string here.
\<close>

record phase =
  name :: string
  containers :: "node list"
  parallel :: bool
  description :: string
  special :: bool
  phase_cycles :: "node list list"

subsection \<open>Python floats\<close>

text \<open>
  A Python float is an IEEE binary64 number. It is modelled by the rational it denotes,
  and every float operation returns the exact result rounded to the nearest number with a
  53-bit significand, ties to the even significand: \<open>fl\<close>. The exponent range of
  binary64 is not modelled; no value of the estimator leaves it below some \<open>10^300\<close>
  containers.
\<close>

text \<open>The nearest integer, ties to even.\<close>

definition round_half_even :: "rat \<Rightarrow> int" where
  "round_half_even x =
     (let f = \<lfloor>x\<rfloor>; r = x - of_int f
      in if r < 1 / 2 then f else if 1 / 2 < r then f + 1 else if even f then f else f + 1)"

text \<open>The binary exponent of a positive rational: \<open>2 ^ flog2 x \<le> x < 2 ^ (flog2 x + 1)\<close>.\<close>

function flog2 :: "rat \<Rightarrow> int" where
  "flog2 x = (if x \<le> 0 then 0
              else if 2 \<le> x then flog2 (x / 2) + 1
              else if x < 1 then flog2 (x * 2) - 1
              else 0)"
  by pat_completeness auto
termination
proof (relation "measure (\<lambda>x. if 1 \<le> x then nat \<lfloor>x\<rfloor> else nat \<lceil>1 / x\<rceil> + 1)", goal_cases)
  case 1
  show ?case by simp
next
  case (2 x)
  then have "2 \<le> x" by simp
  then have "\<lfloor>x / 2\<rfloor> < \<lfloor>x\<rfloor>" by linarith
  moreover have "0 \<le> \<lfloor>x / 2\<rfloor>" using \<open>2 \<le> x\<close> by simp
  ultimately show ?case using \<open>2 \<le> x\<close> by simp
next
  case (3 x)
  then have x: "0 < x" "x < 1" by simp_all
  show ?case
  proof (cases "1 \<le> x * 2")
    case True
    then have "\<lfloor>x * 2\<rfloor> = 1" using x by linarith
    moreover have "1 < 1 / x" using x by simp
    then have "2 \<le> \<lceil>1 / x\<rceil>" by linarith
    ultimately show ?thesis using True x by simp
  next
    case False
    then have "2 < 1 / x" using x by (simp add: field_simps)
    moreover have "1 / (x * 2) = (1 / x) / 2" by simp
    ultimately have "\<lceil>1 / (x * 2)\<rceil> < \<lceil>1 / x\<rceil>" by linarith
    moreover have "0 < \<lceil>1 / (x * 2)\<rceil>" using x by simp
    ultimately show ?thesis using False x by simp
  qed
qed

declare flog2.simps [simp del]

definition fl :: "rat \<Rightarrow> rat" where
  "fl x = (if x = 0 then 0
           else let e = flog2 \<bar>x\<bar> - 52
                in of_int (round_half_even (x / 2 powi e)) * 2 powi e)"


text \<open>
  \<open>round(x, 1)\<close> on a float: the exact value of \<open>x\<close> rounded to one decimal, ties to
  even, then the float nearest to that decimal.
\<close>

definition round1 :: "rat \<Rightarrow> rat" where
  "round1 x = fl (of_int (round_half_even (x * 10)) / 10)"


subsection \<open>Python numbers\<close>

text \<open>
  An arithmetic expression of the estimator is an \<open>int\<close> or a \<open>float\<close> according to
  its operands: \<open>int\<close> with \<open>int\<close> stays exact (true division apart, whose quotient
  is rounded once), anything with a \<open>float\<close> converts the \<open>int\<close> operand and rounds
  the result. \<open>int(x)\<close> truncates toward zero; \<open>round\<close> of an \<open>int\<close> is that
  \<open>int\<close>.
\<close>

datatype pynum = PyInt int | PyFloat rat

definition to_float :: "pynum \<Rightarrow> rat" where
  "to_float v = (case v of PyInt k \<Rightarrow> fl (of_int k) | PyFloat x \<Rightarrow> x)"

fun py_add :: "pynum \<Rightarrow> pynum \<Rightarrow> pynum" where
  "py_add (PyInt i) (PyInt j) = PyInt (i + j)"
| "py_add a b = PyFloat (fl (to_float a + to_float b))"

fun py_sub :: "pynum \<Rightarrow> pynum \<Rightarrow> pynum" where
  "py_sub (PyInt i) (PyInt j) = PyInt (i - j)"
| "py_sub a b = PyFloat (fl (to_float a - to_float b))"

fun py_mul :: "pynum \<Rightarrow> pynum \<Rightarrow> pynum" where
  "py_mul (PyInt i) (PyInt j) = PyInt (i * j)"
| "py_mul a b = PyFloat (fl (to_float a * to_float b))"

fun py_truediv :: "pynum \<Rightarrow> pynum \<Rightarrow> pynum" where
  "py_truediv (PyInt i) (PyInt j) = PyFloat (fl (of_int i / of_int j))"
| "py_truediv a b = PyFloat (fl (to_float a / to_float b))"

fun py_round1 :: "pynum \<Rightarrow> pynum" where
  "py_round1 (PyInt i) = PyInt i"
| "py_round1 (PyFloat x) = PyFloat (round1 x)"

fun py_int :: "pynum \<Rightarrow> int" where
  "py_int (PyInt i) = i"
| "py_int (PyFloat x) = (if 0 \<le> x then \<lfloor>x\<rfloor> else \<lceil>x\<rceil>)"

subsection \<open>The estimator\<close>

record duration =
  total_containers :: nat
  estimated_sequential_minutes :: nat
  estimated_parallel_minutes :: int
  estimated_sequential_hours :: pynum
  estimated_parallel_hours :: pynum
  time_savings_percent :: pynum

definition base_time_per_container :: nat where
  "base_time_per_container = 5"

definition parallel_efficiency :: pynum where
  "parallel_efficiency = PyFloat (fl (7 / 10))"

text \<open>Lines 707-711; \<open>parallel_efficiency\<close> is the float literal \<open>0.7\<close>.\<close>

definition phase_time :: "phase \<Rightarrow> pynum" where
  "phase_time ph =
     (if parallel ph then py_mul (PyInt (int base_time_per_container)) parallel_efficiency
      else PyInt (int (length (containers ph) * base_time_per_container)))"

text \<open>The loop of lines 705-712, \<open>parallel_minutes += phase_time\<close> from the \<open>int\<close> 0.\<close>

definition parallel_minutes :: "phase list \<Rightarrow> pynum" where
  "parallel_minutes phases = fold (\<lambda>ph acc. py_add acc (phase_time ph)) phases (PyInt 0)"

definition estimate_migration_duration :: "phase list \<Rightarrow> duration" where
  "estimate_migration_duration phases =
     (let total = sum_list (map (\<lambda>ph. length (containers ph)) phases);
          sequential_minutes = total * base_time_per_container;
          pm = parallel_minutes phases
      in \<lparr>total_containers = total,
          estimated_sequential_minutes = sequential_minutes,
          estimated_parallel_minutes = py_int pm,
          estimated_sequential_hours =
            py_round1 (py_truediv (PyInt (int sequential_minutes)) (PyInt 60)),
          estimated_parallel_hours = py_round1 (py_truediv pm (PyInt 60)),
          time_savings_percent =
            (if 0 < sequential_minutes
             then py_round1 (py_mul (py_sub (PyInt 1)
                    (py_truediv pm (PyInt (int sequential_minutes)))) (PyInt 100))
             else PyInt 0)\<rparr>)"


section \<open>Cycle detector\<close>

text \<open>
  \<open>_detect_cycles\<close>. The closure variables \<open>cycles\<close>, \<open>visited\<close>, \<open>rec_stack\<close> and
  \<open>path\<close> are the state threaded through the traversal. The Boolean that \<open>dfs\<close>
  returns is dropped by both of its callers and is not modelled.
\<close>

record dfs_state =
  cycles :: "node list list"
  visited :: "node set"
  rec_stack :: "node set"
  path :: "node list"

text \<open>A \<open>for\<close> loop whose body may fail to return.\<close>

fun for_each :: "('a \<Rightarrow> 's \<Rightarrow> 's option) \<Rightarrow> 'a list \<Rightarrow> 's \<Rightarrow> 's option" where
  "for_each body [] st = Some st"
| "for_each body (x # xs) st =
     (case body x st of None \<Rightarrow> None | Some st' \<Rightarrow> for_each body xs st')"

text \<open>
  The recursion of \<open>dfs\<close> is bounded by a depth budget: \<open>None\<close> is the traversal that
  would need to nest deeper. \<open>path.index(node)\<close> is the first occurrence of the node, so
  \<open>path[cycle_start:]\<close> drops the path up to it. A cycle is stored as that slice followed
  by the node again.
\<close>

primrec dfs :: "nat \<Rightarrow> depmap \<Rightarrow> node \<Rightarrow> dfs_state \<Rightarrow> dfs_state option" where
  "dfs 0 dependencies node st = None"
| "dfs (Suc depth) dependencies node st =
     (if node \<in> rec_stack st then
        Some (st\<lparr>cycles := cycles st @ [dropWhile (\<lambda>x. x \<noteq> node) (path st) @ [node]]\<rparr>)
      else if node \<in> visited st then Some st
      else
        (case for_each (dfs depth dependencies) (dd_get dependencies node)
                (st\<lparr>visited := insert node (visited st),
                    rec_stack := insert node (rec_stack st),
                    path := path st @ [node]\<rparr>) of
           None \<Rightarrow> None
         | Some st' \<Rightarrow>
             Some (st'\<lparr>rec_stack := rec_stack st' - {node}, path := butlast (path st')\<rparr>)))"

text \<open>
  Lines 569-573. The budget is one more than the number of nodes; the traversal never
  exhausts it (\<open>detect_cycles_spec\<close> below), so it bounds nothing the code does. The
  recursion limit of the Python interpreter is not modelled.
\<close>

definition detect_cycles :: "depmap \<Rightarrow> node list list option" where
  "detect_cycles dependencies =
     map_option cycles
       (for_each (\<lambda>node st. if node \<notin> visited st
                             then dfs (Suc (length (all_nodes dependencies))) dependencies node st
                             else Some st)
          (map fst dependencies)
          \<lparr>cycles = [], visited = {}, rec_stack = {}, path = []\<rparr>)"

section \<open>Topological sequencer\<close>

text \<open>
  \<open>_calculate_startup_order\<close>, Kahn's algorithm. \<open>in_degree\<close> is a \<open>defaultdict(int)\<close>:
  a total function that reads 0 where nothing was stored. \<open>graph\<close> is a
  \<open>defaultdict(list)\<close> from a dependency to the nodes that depend on it, in the order
  they were appended.
\<close>

text \<open>\<open>graph[target].append(source)\<close>.\<close>

definition graph_append :: "depmap \<Rightarrow> node \<Rightarrow> node \<Rightarrow> depmap" where
  "graph_append g t s = AList.update t (dd_get g t @ [s]) g"

text \<open>Lines 590-593: the reversed adjacency and the in-degrees.\<close>

definition build_reverse :: "depmap \<Rightarrow> (node \<Rightarrow> int) \<times> depmap" where
  "build_reverse deps =
     fold (\<lambda>(source, targets) st.
            fold (\<lambda>target (in_degree, graph).
                   (in_degree(source := in_degree source + 1), graph_append graph target source))
                 targets st)
          deps (\<lambda>_. 0, [])"

text \<open>Lines 603-606: the in-degree of every dependent of the node just emitted drops by one;
  a dependent whose in-degree reaches 0 joins the queue.\<close>

fun release :: "node list \<Rightarrow> (node \<Rightarrow> int) \<Rightarrow> node list \<Rightarrow> (node \<Rightarrow> int) \<times> node list" where
  "release [] in_degree queue = (in_degree, queue)"
| "release (neighbor # rest) in_degree queue =
     (let in_degree' = in_degree(neighbor := in_degree neighbor - 1)
      in release rest in_degree'
           (if in_degree' neighbor = 0 then queue @ [neighbor] else queue))"

text \<open>The while loop terminates on every state: each pass removes the head of the queue,
  and a node joins the queue only when its in-degree falls from 1 to 0, which happens at
  most once per node since in-degrees never grow.\<close>

lemma release_measure:
  "finite N \<Longrightarrow> set ns \<subseteq> N \<Longrightarrow> release ns deg q = (deg', q') \<Longrightarrow>
   length q' + card {n \<in> N. 0 < deg' n} = length q + card {n \<in> N. 0 < deg n}"
proof (induction ns arbitrary: deg q)
  case Nil
  then show ?case by simp
next
  case (Cons a ns)
  let ?d = "deg(a := deg a - 1)"
  let ?q = "if ?d a = 0 then q @ [a] else q"
  have r: "release ns ?d ?q = (deg', q')"
    using Cons.prems(3) by (simp add: Let_def)
  have ih: "length q' + card {n \<in> N. 0 < deg' n} = length ?q + card {n \<in> N. 0 < ?d n}"
    using Cons.IH [OF Cons.prems(1) _ r] Cons.prems(2) by simp
  have a: "a \<in> N" using Cons.prems(2) by simp
  show ?case
  proof (cases "deg a = 1")
    case True
    have "{n \<in> N. 0 < ?d n} = {n \<in> N. 0 < deg n} - {a}"
      using True by auto
    moreover have "a \<in> {n \<in> N. 0 < deg n}" using True a by simp
    moreover have "finite {n \<in> N. 0 < deg n}" using Cons.prems(1) by simp
    ultimately have "card {n \<in> N. 0 < ?d n} + 1 = card {n \<in> N. 0 < deg n}"
      by (metis (no_types, lifting) Suc_eq_plus1 card_Suc_Diff1)
    then show ?thesis using ih True by simp
  next
    case False
    have "{n \<in> N. 0 < ?d n} = {n \<in> N. 0 < deg n}"
      using False by auto
    then show ?thesis using ih False by simp
  qed
qed

lemma dd_get_subset: "set (dd_get g n) \<subseteq> set (concat (map snd g))"
proof (cases "map_of g n")
  case None
  then show ?thesis by (simp add: dd_get_def)
next
  case (Some vs)
  then have "(n, vs) \<in> set g" by (rule map_of_SomeD)
  then show ?thesis using Some by (force simp: dd_get_def)
qed

lemma kahn_step_decreases:
  assumes "release (dd_get g node) deg q = (deg', q')"
  shows "length q' + card {n \<in> set (concat (map snd g)). 0 < deg' n}
       < length (node # q) + card {n \<in> set (concat (map snd g)). 0 < deg n}"
  using release_measure [OF _ dd_get_subset assms] by simp

text \<open>Lines 599-606, \<open>while queue\<close>.\<close>

function kahn_loop :: "depmap \<Rightarrow> (node \<Rightarrow> int) \<Rightarrow> node list \<Rightarrow> node list \<Rightarrow> node list" where
  "kahn_loop graph in_degree [] startup_order = startup_order"
| "kahn_loop graph in_degree (node # queue) startup_order =
     (case release (dd_get graph node) in_degree queue of
        (in_degree', queue') \<Rightarrow> kahn_loop graph in_degree' queue' (startup_order @ [node]))"
  by pat_completeness auto
termination
  by (relation "measure (\<lambda>(g, deg, q, order).
          length q + card {n \<in> set (concat (map snd g)). 0 < deg n})")
     (auto dest: kahn_step_decreases [OF sym])

text \<open>
  The queue is seeded by iterating the set \<open>all_nodes\<close>, in an order Python does not
  fix: \<open>ns\<close> is that order. \<open>calculate_startup_order\<close> is the sequencer when the set
  is iterated in insertion order.
\<close>

definition calculate_startup_order_in :: "node list \<Rightarrow> depmap \<Rightarrow> node list" where
  "calculate_startup_order_in ns dependencies =
     (case build_reverse dependencies of
        (in_degree, graph) \<Rightarrow> kahn_loop graph in_degree (filter (\<lambda>node. in_degree node = 0) ns) [])"

definition calculate_startup_order :: "depmap \<Rightarrow> node list" where
  "calculate_startup_order dependencies =
     calculate_startup_order_in (all_nodes dependencies) dependencies"

text \<open>\<open>xs.index(x)\<close>; Python raises where \<open>x\<close> is absent, the model returns the length.\<close>

fun index_of :: "'a list \<Rightarrow> 'a \<Rightarrow> nat" where
  "index_of [] x = 0"
| "index_of (y # ys) x = (if x = y then 0 else Suc (index_of ys x))"


section \<open>Graph stage and phase planner\<close>

text \<open>
  The \<open>dependency_graph\<close> entry that \<open>build_dependency_graph\<close> stores (lines 510-535).
  \<open>ns\<close> is the order in which the sequencer iterates its node set.
\<close>

record dependency_graph =
  dg_nodes :: "node list"
  dg_edges :: "edge list"
  dg_cycles :: "node list list"
  dg_startup_order :: "node list"

definition build_dependency_graph_in :: "node list \<Rightarrow> mapper \<Rightarrow> dependency_graph option" where
  "build_dependency_graph_in ns m =
     (let all_deps = all_dependencies m
      in case detect_cycles all_deps of
           None \<Rightarrow> None
         | Some cs \<Rightarrow>
             Some \<lparr>dg_nodes = all_nodes all_deps,
                   dg_edges = graph_edges all_deps,
                   dg_cycles = cs,
                   dg_startup_order = calculate_startup_order_in ns all_deps\<rparr>)"

definition build_dependency_graph :: "mapper \<Rightarrow> dependency_graph option" where
  "build_dependency_graph m = build_dependency_graph_in (all_nodes (all_dependencies m)) m"

text \<open>Decimal rendering of a level number, for \<open>f"Phase {level + 1}"\<close>.\<close>

definition digit :: "nat \<Rightarrow> char" where
  "digit n = ''0123456789'' ! n"

fun str_nat :: "nat \<Rightarrow> string" where
  "str_nat n = (if n < 10 then [digit n] else str_nat (n div 10) @ [digit (n mod 10)])"

declare str_nat.simps [simp del]

record parallel_group =
  pg_phase :: nat
  pg_containers :: "node list"
  pg_reason :: string

record migration_sequence =
  phases :: "phase list"
  parallel_groups :: "parallel_group list"
  sequential_order :: "node list"
  total_phases :: nat
  estimated_duration :: duration

text \<open>
  Lines 637-640: the first level whose list holds the dependency.
  \<open>dependency_levels\<close> is a \<open>defaultdict(list)\<close> from level to nodes, in insertion
  order.
\<close>

fun find_level :: "(nat \<times> node list) list \<Rightarrow> node \<Rightarrow> nat option" where
  "find_level [] dep = None"
| "find_level ((lvl, cs) # rest) dep = (if dep \<in> set cs then Some lvl else find_level rest dep)"

text \<open>Lines 633-640: the level of a node, from \<open>self.container_dependencies\<close> alone.\<close>

definition node_level :: "depmap \<Rightarrow> (nat \<times> node list) list \<Rightarrow> node set \<Rightarrow> node \<Rightarrow> nat" where
  "node_level cdeps dependency_levels processed node =
     fold (\<lambda>dep level.
             if dep \<in> processed
             then (case find_level dependency_levels dep of
                     Some lvl \<Rightarrow> max level (lvl + 1)
                   | None \<Rightarrow> level)
             else level)
          (dd_get cdeps node) 0"

text \<open>Lines 642-643, and the loop of line 632.\<close>

definition level_step ::
  "depmap \<Rightarrow> node \<Rightarrow> (nat \<times> node list) list \<times> node set \<Rightarrow> (nat \<times> node list) list \<times> node set" where
  "level_step cdeps node st =
     (case st of (dependency_levels, processed) \<Rightarrow>
        let level = node_level cdeps dependency_levels processed node
        in (AList.update level (dd_get dependency_levels level @ [node]) dependency_levels,
            insert node processed))"

definition assign_levels :: "depmap \<Rightarrow> node list \<Rightarrow> (nat \<times> node list) list \<times> node set" where
  "assign_levels cdeps startup_order = fold (level_step cdeps) startup_order ([], {})"

definition level_phase :: "(nat \<times> node list) list \<Rightarrow> nat \<Rightarrow> phase" where
  "level_phase dependency_levels level =
     \<lparr>name = ''Phase '' @ str_nat (level + 1),
      containers = dd_get dependency_levels level,
      parallel = (1 < length (dd_get dependency_levels level)),
      description = ''Migrate containers with dependency level '' @ str_nat level,
      special = False,
      phase_cycles = []\<rparr>"

definition level_group :: "(nat \<times> node list) list \<Rightarrow> nat \<Rightarrow> parallel_group" where
  "level_group dependency_levels level =
     \<lparr>pg_phase = level + 1,
      pg_containers = dd_get dependency_levels level,
      pg_reason = ''No interdependencies within group''\<rparr>"

definition cycle_phase :: "node list list \<Rightarrow> phase" where
  "cycle_phase cs =
     \<lparr>name = ''Phase 0 - Cycle Resolution'',
      containers = fold (\<lambda>cycle acc. set_update acc cycle) cs [],
      parallel = False,
      description = ''Containers with circular dependencies - manual intervention required'',
      special = True,
      phase_cycles = cs\<rparr>"

text \<open>
  \<open>generate_migration_sequence\<close>, lines 614-689, reading the stored graph \<open>g\<close>.
  \<open>list(cycle_containers)\<close> is taken in insertion order.
\<close>

definition generate_migration_sequence :: "mapper \<Rightarrow> dependency_graph \<Rightarrow> migration_sequence" where
  "generate_migration_sequence m g =
     (let startup_order = dg_startup_order g;
          cs = dg_cycles g;
          (phases0, parallel_groups0, sequential_order0) =
            (if startup_order = [] then
               ([\<lparr>name = ''Phase 1'', containers = inventory m, parallel = False,
                   description = [], special = False, phase_cycles = []\<rparr>],
                [], inventory m)
             else
               (let dependency_levels = fst (assign_levels (container_dependencies m) startup_order);
                    levels = sort (map fst dependency_levels)
                in (map (level_phase dependency_levels) levels,
                    map (level_group dependency_levels)
                      (filter (\<lambda>level. 1 < length (dd_get dependency_levels level)) levels),
                    startup_order)));
          phases1 =
            (if cs \<noteq> [] \<and> fold (\<lambda>cycle acc. set_update acc cycle) cs [] \<noteq> []
             then cycle_phase cs # phases0 else phases0)
      in \<lparr>phases = phases1,
          parallel_groups = parallel_groups0,
          sequential_order = sequential_order0,
          total_phases = length phases1,
          estimated_duration = estimate_migration_duration phases1\<rparr>)"

text \<open>\<open>build_dependency_graph\<close> followed by \<open>generate_migration_sequence\<close>, as
  \<open>run_full_analysis\<close> calls them.\<close>

definition run_graph_stages :: "mapper \<Rightarrow> (dependency_graph \<times> migration_sequence) option" where
  "run_graph_stages m =
     (case build_dependency_graph m of
        None \<Rightarrow> None
      | Some g \<Rightarrow> Some (g, generate_migration_sequence m g))"

section \<open>Facts about the dictionary operations\<close>

lemma set_set_add [simp]: "set (set_add x xs) = insert x (set xs)"
  by (auto simp: set_add_def)

lemma distinct_set_add [simp]: "distinct (set_add x xs) = distinct xs"
  by (auto simp: set_add_def)

lemma set_set_update [simp]: "set (set_update xs ys) = set xs \<union> set ys"
  unfolding set_update_def by (induction ys arbitrary: xs) auto

lemma distinct_set_update [simp]: "distinct (set_update xs ys) = distinct xs"
  unfolding set_update_def by (induction ys arbitrary: xs) auto

lemma set_dep_edges:
  "set (dep_edges d) = {(s, t). \<exists>ts. (s, ts) \<in> set d \<and> t \<in> set ts}"
  by (auto simp: dep_edges_def)

lemma dd_get_mem:
  "distinct (map fst d) \<Longrightarrow> t \<in> set (dd_get d k) \<longleftrightarrow> (k, t) \<in> set (dep_edges d)"
  by (auto simp: dd_get_def set_dep_edges split: option.splits dest: map_of_SomeD
      simp: map_of_eq_None_iff image_iff)

lemma set_update_alist:
  "distinct (map fst d) \<Longrightarrow>
   set (AList.update k vs d) = {p \<in> set d. fst p \<noteq> k} \<union> {(k, vs)}"
  by (induction d) (auto simp: image_iff)

lemma dep_edges_update:
  assumes "distinct (map fst d)"
  shows "set (dep_edges (AList.update k vs d))
         = {e \<in> set (dep_edges d). fst e \<noteq> k} \<union> {k} \<times> set vs"
  unfolding set_dep_edges set_update_alist [OF assms] by auto

lemma dep_edges_add_values:
  assumes "distinct (map fst d)"
  shows "set (dep_edges (AList.update k (set_update (dd_get d k) vs) d))
         = set (dep_edges d) \<union> {k} \<times> set vs"
  using dd_get_mem [OF assms, of _ k]
  by (auto simp: dep_edges_update [OF assms])

definition wf_deps :: "depmap \<Rightarrow> bool" where
  "wf_deps d \<longleftrightarrow> distinct (map fst d) \<and> list_all (\<lambda>p. distinct (snd p)) d"

lemma wf_deps_update:
  "wf_deps d \<Longrightarrow> distinct vs \<Longrightarrow> wf_deps (AList.update k vs d)"
  unfolding wf_deps_def list_all_iff
  by (auto simp: distinct_update set_update_alist)

lemma dd_get_distinct: "wf_deps d \<Longrightarrow> distinct (dd_get d k)"
  unfolding wf_deps_def list_all_iff dd_get_def
  by (auto split: option.splits dest!: map_of_SomeD)

lemma keys_update: "fst ` set (AList.update k vs d) = insert k (fst ` set d)"
  using dom_update [of k vs d] by (simp add: dom_map_of_conv_image_fst)

lemma dd_update_all_props:
  "wf_deps acc \<Longrightarrow>
     wf_deps (dd_update_all src acc)
   \<and> set (dep_edges (dd_update_all src acc)) = set (dep_edges acc) \<union> set (dep_edges src)
   \<and> fst ` set (dd_update_all src acc) = fst ` set acc \<union> fst ` set src"
proof (induction src arbitrary: acc)
  case Nil
  then show ?case by (simp add: dd_update_all_def dep_edges_def)
next
  case (Cons p src)
  obtain k vs where p: "p = (k, vs)" by (cases p)
  let ?a = "AList.update k (set_update (dd_get acc k) vs) acc"
  have wf: "wf_deps ?a"
    using Cons.prems by (simp add: wf_deps_update dd_get_distinct)
  have step: "dd_update_all (p # src) acc = dd_update_all src ?a"
    by (simp add: dd_update_all_def p)
  have e: "set (dep_edges ?a) = set (dep_edges acc) \<union> {k} \<times> set vs"
    using Cons.prems by (simp add: dep_edges_add_values wf_deps_def)
  have e2: "set (dep_edges (p # src)) = {k} \<times> set vs \<union> set (dep_edges src)"
    by (auto simp: dep_edges_def p)
  show ?case
    unfolding step using Cons.IH [OF wf] e e2 by (auto simp: keys_update p)
qed

lemma wf_deps_Nil [simp]: "wf_deps []"
  by (simp add: wf_deps_def)

lemma dep_edges_Nil [simp]: "dep_edges [] = []"
  by (simp add: dep_edges_def)

lemma all_dependencies_props:
  "wf_deps (all_dependencies m)"
  "set (dep_edges (all_dependencies m))
     = set (dep_edges (container_dependencies m)) \<union> set (dep_edges (network_dependencies m))
     \<union> set (dep_edges (volume_dependencies m)) \<union> set (dep_edges (compose_dependencies m))"
  "fst ` set (all_dependencies m)
     = fst ` set (container_dependencies m) \<union> fst ` set (network_dependencies m)
     \<union> fst ` set (volume_dependencies m) \<union> fst ` set (compose_dependencies m)"
  unfolding all_dependencies_def
  using dd_update_all_props [of "[]" "container_dependencies m"]
        dd_update_all_props [of "dd_update_all (container_dependencies m) []" "network_dependencies m"]
        dd_update_all_props [of "dd_update_all (network_dependencies m) (dd_update_all (container_dependencies m) [])" "volume_dependencies m"]
        dd_update_all_props [of "dd_update_all (volume_dependencies m)
          (dd_update_all (network_dependencies m) (dd_update_all (container_dependencies m) []))" "compose_dependencies m"]
  by auto

lemma set_all_nodes:
  "set (all_nodes deps) = fst ` set deps \<union> \<Union> (set ` snd ` set deps)"
proof -
  have "set (fold (\<lambda>vs acc. set_update acc vs) vss acc) = set acc \<union> \<Union> (set ` set vss)"
    for vss :: "node list list" and acc
    by (induction vss arbitrary: acc) auto
  then show ?thesis by (auto simp: all_nodes_def)
qed

lemma distinct_all_nodes: "distinct (all_nodes deps)"
proof -
  have "distinct acc \<Longrightarrow> distinct (fold (\<lambda>vs acc. set_update acc vs) vss acc)"
    for vss :: "node list list" and acc
    by (induction vss arbitrary: acc) auto
  then show ?thesis by (simp add: all_nodes_def)
qed

lemma set_all_nodes_edges:
  "set (all_nodes deps) = fst ` set deps \<union> snd ` set (dep_edges deps)"
  unfolding set_all_nodes set_dep_edges by force

lemma graph_edges_dep_edges:
  "map (\<lambda>e. (e_from e, e_to e)) (graph_edges deps) = dep_edges deps"
  unfolding graph_edges_def dep_edges_def
  by (induction deps) (auto simp: map_concat comp_def)

lemma record_facts_props:
  "wf_deps (record_facts fs) \<and> set (dep_edges (record_facts fs)) = set fs
   \<and> fst ` set (record_facts fs) = fst ` set fs"
proof -
  have "wf_deps d \<Longrightarrow>
      wf_deps (fold add_fact fs d)
    \<and> set (dep_edges (fold add_fact fs d)) = set (dep_edges d) \<union> set fs
    \<and> fst ` set (fold add_fact fs d) = fst ` set d \<union> fst ` set fs" for d
  proof (induction fs arbitrary: d)
    case Nil
    then show ?case by simp
  next
    case (Cons f fs)
    have wf: "wf_deps (add_fact f d)"
      using Cons.prems by (simp add: add_fact_def wf_deps_update dd_get_distinct)
    have "set (dep_edges (AList.update (fst f) (set_update (dd_get d (fst f)) [snd f]) d))
        = set (dep_edges d) \<union> {fst f} \<times> set [snd f]"
      using Cons.prems by (intro dep_edges_add_values) (simp add: wf_deps_def)
    then have e: "set (dep_edges (add_fact f d)) = insert f (set (dep_edges d))"
      by (simp add: add_fact_def set_update_def)
    show ?case
      using Cons.IH [OF wf] e by (auto simp: add_fact_def keys_update)
  qed
  from this [of "[]"] show ?thesis by (simp add: record_facts_def)
qed


lemma distinct_dep_edges: "wf_deps d \<Longrightarrow> distinct (dep_edges d)"
proof (induction d)
  case Nil
  then show ?case by simp
next
  case (Cons p d)
  obtain k vs where p: "p = (k, vs)" by (cases p)
  have split: "dep_edges (p # d) = map (Pair k) vs @ dep_edges d"
    by (simp add: dep_edges_def p)
  have "wf_deps d" "distinct vs" "k \<notin> fst ` set d"
    using Cons.prems by (auto simp: wf_deps_def p)
  then show ?case
    unfolding split using Cons.IH
    by (auto simp: distinct_map inj_on_def set_dep_edges image_iff)
qed

lemma distinct_graph_edges: "wf_deps d \<Longrightarrow> distinct (graph_edges d)"
  using distinct_dep_edges [of d] graph_edges_dep_edges [of d]
  by (metis distinct_map)

lemma graph_edges_mem:
  "\<lparr>e_from = s, e_to = t, e_type = ''depends_on''\<rparr> \<in> set (graph_edges d)
   \<longleftrightarrow> (s, t) \<in> set (dep_edges d)"
  by (auto simp: graph_edges_def dep_edges_def)

text \<open>The mapper as the extractors leave it: each tracking dictionary filled by one
  \<open>d[source].add(target)\<close> per relationship fact of its family.\<close>

definition mapper_of_facts ::
  "node list \<Rightarrow> (node \<times> node) list \<Rightarrow> (node \<times> node) list \<Rightarrow> (node \<times> node) list
   \<Rightarrow> (node \<times> node) list \<Rightarrow> mapper" where
  "mapper_of_facts inv0 cf nf vf pf =
     \<lparr>inventory = inv0,
      container_dependencies = record_facts cf,
      network_dependencies = record_facts nf,
      volume_dependencies = record_facts vf,
      compose_dependencies = record_facts pf\<rparr>"

lemma facts_graph:
  fixes cf nf vf pf :: "(node \<times> node) list"
  shows "wf_deps (all_dependencies (mapper_of_facts inv0 cf nf vf pf))"
    and "set (dep_edges (all_dependencies (mapper_of_facts inv0 cf nf vf pf)))
          = set (cf @ nf @ vf @ pf)"
    and "fst ` set (all_dependencies (mapper_of_facts inv0 cf nf vf pf))
          = fst ` set (cf @ nf @ vf @ pf)"
  using record_facts_props [of cf] record_facts_props [of nf]
        record_facts_props [of vf] record_facts_props [of pf]
  by (auto simp: all_dependencies_props mapper_of_facts_def)

section \<open>Nodes and edges of the merged dictionary\<close>

lemma facts_nodes_edges:
  fixes cf nf vf pf :: "(node \<times> node) list"
  defines "facts \<equiv> set (cf @ nf @ vf @ pf)"
  shows "set (all_nodes (all_dependencies (mapper_of_facts inv0 cf nf vf pf)))
           = fst ` facts \<union> snd ` facts"
    and "map (\<lambda>e. (e_from e, e_to e))
           (graph_edges (all_dependencies (mapper_of_facts inv0 cf nf vf pf)))
         = dep_edges (all_dependencies (mapper_of_facts inv0 cf nf vf pf))"
    and "set (dep_edges (all_dependencies (mapper_of_facts inv0 cf nf vf pf))) = facts"
    and "distinct (dep_edges (all_dependencies (mapper_of_facts inv0 cf nf vf pf)))"
proof -
  let ?deps = "all_dependencies (mapper_of_facts inv0 cf nf vf pf)"
  have wf: "wf_deps ?deps"
    and es: "set (dep_edges ?deps) = set (cf @ nf @ vf @ pf)"
    and ks: "fst ` set ?deps = fst ` set (cf @ nf @ vf @ pf)"
    by (rule facts_graph)+
  show "set (all_nodes ?deps) = fst ` facts \<union> snd ` facts"
    unfolding set_all_nodes_edges es ks facts_def ..
  show "map (\<lambda>e. (e_from e, e_to e)) (graph_edges ?deps) = dep_edges ?deps"
    by (rule graph_edges_dep_edges)
  show "set (dep_edges ?deps) = facts" unfolding facts_def by (rule es)
  show "distinct (dep_edges ?deps)" using wf by (rule distinct_dep_edges)
qed

section \<open>Properties of the duration estimator\<close>

subsection \<open>Rounding\<close>

lemma flog2_bounds: "0 < x \<Longrightarrow> 2 powi (flog2 x) \<le> x \<and> x < 2 powi (flog2 x + 1)"
proof (induction x rule: flog2.induct)
  case (1 x)
  consider (big) "2 \<le> x" | (small) "x < 1" | (mid) "1 \<le> x" "x < 2" by linarith
  then show ?case
  proof cases
    case big
    then have f: "flog2 x = flog2 (x / 2) + 1" using 1(3) by (subst flog2.simps) simp
    have "2 powi (flog2 (x / 2)) \<le> x / 2 \<and> x / 2 < 2 powi (flog2 (x / 2) + 1)"
      using 1(1) big 1(3) by simp
    then show ?thesis unfolding f by (simp add: power_int_add field_simps)
  next
    case small
    then have f: "flog2 x = flog2 (x * 2) - 1" using 1(3) by (subst flog2.simps) simp
    have "2 powi (flog2 (x * 2)) \<le> x * 2 \<and> x * 2 < 2 powi (flog2 (x * 2) + 1)"
      using 1(2) small 1(3) by simp
    then show ?thesis unfolding f by (simp add: power_int_add power_int_diff field_simps)
  next
    case mid
    then have "flog2 x = 0" by (subst flog2.simps) simp
    then show ?thesis using mid by simp
  qed
qed

lemma pow2_less_cancel: "(2::rat) powi k < 2 powi m \<Longrightarrow> k < m"
  using power_int_increasing [of m k "2::rat"] by (cases "k < m") auto

lemma flog2_unique:
  assumes "2 powi k \<le> x" "x < 2 powi (k + 1)"
  shows "flog2 x = k"
proof -
  have pos: "0 < x" using assms(1) by (meson less_le_trans zero_less_numeral zero_less_power_int)
  note b = flog2_bounds [OF pos]
  have "(2::rat) powi k < 2 powi (flog2 x + 1)" using assms(1) b by linarith
  then have "k < flog2 x + 1" by (rule pow2_less_cancel)
  moreover have "(2::rat) powi (flog2 x) < 2 powi (k + 1)" using assms(2) b by linarith
  then have "flog2 x < k + 1" by (rule pow2_less_cancel)
  ultimately show ?thesis by simp
qed


lemma round_half_even_near:
  assumes "\<bar>r - of_int m\<bar> < 1 / 2"
  shows "round_half_even r = m"
proof (cases "of_int m \<le> r")
  case True
  then have "\<lfloor>r\<rfloor> = m" using assms by (intro floor_unique) auto
  then show ?thesis using assms True by (simp add: round_half_even_def Let_def)
next
  case False
  then have f: "\<lfloor>r\<rfloor> = m - 1" using assms by (intro floor_unique) auto
  have "1 / 2 < r - of_int (m - 1)" using assms False by auto
  then show ?thesis unfolding round_half_even_def Let_def f by auto
qed

lemma round_half_even_tie_up:
  assumes "r = of_int m - 1 / 2" "even m"
  shows "round_half_even r = m"
proof -
  have f: "\<lfloor>r\<rfloor> = m - 1" unfolding assms(1) by (intro floor_unique) auto
  show ?thesis unfolding round_half_even_def Let_def f using assms by auto
qed

lemma round_half_even_tie_down:
  assumes "r = of_int m + 1 / 2" "even m"
  shows "round_half_even r = m"
proof -
  have f: "\<lfloor>r\<rfloor> = m" unfolding assms(1) by (intro floor_unique) auto
  show ?thesis unfolding round_half_even_def Let_def f using assms by auto
qed

lemma round_half_even_int [simp]: "round_half_even (of_int k) = k"
  by (simp add: round_half_even_def)

lemma fl_eqI:
  assumes "2 powi (e + 52) \<le> \<bar>x\<bar>" "\<bar>x\<bar> < 2 powi (e + 53)"
    and "round_half_even (x / 2 powi e) = m"
  shows "fl x = of_int m * 2 powi e"
proof -
  have "(0::rat) < 2 powi (e + 52)" by simp
  then have "0 < \<bar>x\<bar>" using assms(1) by (rule less_le_trans)
  then have nz: "x \<noteq> 0" by simp
  have "flog2 \<bar>x\<bar> = e + 52"
    using assms(1,2) by (intro flog2_unique) (simp_all add: add.commute add.left_commute)
  then show ?thesis using nz assms(3) by (simp add: fl_def)
qed

text \<open>Half-integers below \<open>2^52\<close> are doubles.\<close>

lemma fl_half_integer:
  assumes "\<bar>of_int k / 2 :: rat\<bar> < 2 ^ 52"
  shows "fl (of_int k / 2) = of_int k / 2"
proof (cases "k = 0")
  case True
  then show ?thesis by (simp add: fl_def)
next
  case False
  let ?x = "of_int k / 2 :: rat"
  have pos: "0 < \<bar>?x\<bar>" using False by simp
  define e where "e = flog2 \<bar>?x\<bar> - 52"
  have "2 powi (flog2 \<bar>?x\<bar>) \<le> \<bar>?x\<bar>" using flog2_bounds [OF pos] by simp
  also have "\<bar>?x\<bar> < 2 powi 52" using assms by simp
  finally have "flog2 \<bar>?x\<bar> < 52" by (rule pow2_less_cancel)
  then have e: "e \<le> - 1" by (simp add: e_def)
  have "(2::rat) powi e = 1 / 2 ^ nat (- e)"
    using e by (simp add: power_int_def field_simps)
  then have "?x / 2 powi e = of_int k * 2 ^ nat (- e) / 2" by simp
  also have "(2::rat) ^ nat (- e) = 2 * 2 ^ nat (- e - 1)"
    using e by (metis Suc_nat_eq_nat_zadd1 add.commute diff_add_cancel diff_ge_0_iff_ge minus_le_iff neg_le_iff_le power_Suc uminus_add_conv_diff zle_diff1_eq)
  finally have q: "?x / 2 powi e = of_int (k * 2 ^ nat (- e - 1))" by simp
  have "fl ?x = of_int (round_half_even (?x / 2 powi e)) * 2 powi e"
    using False by (simp add: fl_def e_def Let_def)
  also have "\<dots> = (?x / 2 powi e) * 2 powi e"
    unfolding q round_half_even_int ..
  also have "\<dots> = ?x" by simp
  finally show ?thesis .
qed

lemma fl_int: "\<bar>of_int k :: rat\<bar> < 2 ^ 52 \<Longrightarrow> fl (of_int k) = of_int k"
  using fl_half_integer [of "2 * k"] by simp

subsection \<open>The float values of the examples\<close>

lemma floor_7_2: "\<lfloor>7 / 2 :: rat\<rfloor> = 3"
  by (simp add: floor_eq_iff)

lemma fl_0_7: "fl (7 / 10) = 3152519739159347 / 4503599627370496"
proof -
  have "round_half_even ((7 / 10) / 2 powi (- 53)) = 6305039478318694"
    by (rule round_half_even_near) simp
  from fl_eqI [OF _ _ this] show ?thesis by simp
qed

lemma fl_5_times_0_7: "fl (15762598695796735 / 4503599627370496) = 7 / 2"
proof -
  have "round_half_even ((15762598695796735 / 4503599627370496) / 2 powi (- 51)) = 7881299347898368"
    by (rule round_half_even_tie_up) simp_all
  from fl_eqI [OF _ _ this] show ?thesis by simp
qed

lemma fl_a_quot: "fl (7 / 30) = 4203359652212463 / 18014398509481984"
proof -
  have "round_half_even ((7 / 30) / 2 powi (- 55)) = 8406719304424926"
    by (rule round_half_even_near) simp
  from fl_eqI [OF _ _ this] show ?thesis by simp
qed

lemma fl_a_diff: "fl (13811038857269521 / 18014398509481984) = 863189928579345 / 1125899906842624"
proof -
  have "round_half_even ((13811038857269521 / 18014398509481984) / 2 powi (- 53)) = 6905519428634760"
    by (rule round_half_even_tie_down) simp_all
  from fl_eqI [OF _ _ this] show ?thesis by simp
qed

lemma fl_a_prod: "fl (21579748214483625 / 281474976710656) = 2697468526810453 / 35184372088832"
proof -
  have "round_half_even ((21579748214483625 / 281474976710656) / 2 powi (- 46)) = 5394937053620906"
    by (rule round_half_even_near) simp
  from fl_eqI [OF _ _ this] show ?thesis by simp
qed

lemma rhe_a: "round_half_even (13487342634052265 / 17592186044416) = 767"
  by (rule round_half_even_near) simp

lemma savings_a: "round1 (fl (fl (1 - fl (7 / 30)) * 100)) = fl (767 / 10)"
  by (simp add: round1_def fl_a_quot fl_a_diff fl_a_prod rhe_a)

lemma fl_b_quot: "fl (57 / 80) = 6417629469002957 / 9007199254740992"
proof -
  have "round_half_even ((57 / 80) / 2 powi (- 53)) = 6417629469002957"
    by (rule round_half_even_near) simp
  from fl_eqI [OF _ _ this] show ?thesis by simp
qed

lemma fl_b_diff: "fl (2589569785738035 / 9007199254740992) = 2589569785738035 / 9007199254740992"
proof -
  have "round_half_even ((2589569785738035 / 9007199254740992) / 2 powi (- 54)) = 5179139571476070"
    by (rule round_half_even_near) simp
  from fl_eqI [OF _ _ this] show ?thesis by simp
qed

lemma fl_b_prod: "fl (64739244643450875 / 2251799813685248) = 8092405580431359 / 281474976710656"
proof -
  have "round_half_even ((64739244643450875 / 2251799813685248) / 2 powi (- 48)) = 8092405580431359"
    by (rule round_half_even_near) simp
  from fl_eqI [OF _ _ this] show ?thesis by simp
qed

lemma rhe_b: "round_half_even (40462027902156795 / 140737488355328) = 287"
  by (rule round_half_even_near) simp

lemma savings_b: "round1 (fl (fl (1 - fl (57 / 80)) * 100)) = fl (287 / 10)"
  by (simp add: round1_def fl_b_quot fl_b_diff fl_b_prod rhe_b)

lemma fl_c_quot: "fl (31 / 80) = 6980579422424269 / 18014398509481984"
proof -
  have "round_half_even ((31 / 80) / 2 powi (- 54)) = 6980579422424269"
    by (rule round_half_even_near) simp
  from fl_eqI [OF _ _ this] show ?thesis by simp
qed

lemma fl_c_diff: "fl (11033819087057715 / 18014398509481984) = 2758454771764429 / 4503599627370496"
proof -
  have "round_half_even ((11033819087057715 / 18014398509481984) / 2 powi (- 53)) = 5516909543528858"
    by (rule round_half_even_tie_up) simp_all
  from fl_eqI [OF _ _ this] show ?thesis by simp
qed

lemma fl_c_prod: "fl (68961369294110725 / 1125899906842624) = 8620171161763841 / 140737488355328"
proof -
  have "round_half_even ((68961369294110725 / 1125899906842624) / 2 powi (- 47)) = 8620171161763841"
    by (rule round_half_even_near) simp
  from fl_eqI [OF _ _ this] show ?thesis by simp
qed

lemma rhe_c: "round_half_even (43100855808819205 / 70368744177664) = 613"
  by (rule round_half_even_near) simp

lemma savings_c: "round1 (fl (fl (1 - fl (31 / 80)) * 100)) = fl (613 / 10)"
  by (simp add: round1_def fl_c_quot fl_c_diff fl_c_prod rhe_c)

lemma fl_d_quot: "fl (7 / 20) = 3152519739159347 / 9007199254740992"
proof -
  have "round_half_even ((7 / 20) / 2 powi (- 54)) = 6305039478318694"
    by (rule round_half_even_near) simp
  from fl_eqI [OF _ _ this] show ?thesis by simp
qed

lemma hours_d: "round1 (fl (7 / 20)) = fl (3 / 10)"
proof -
  have "round_half_even (15762598695796735 / 4503599627370496) = 3"
    by (rule round_half_even_near) simp
  then show ?thesis by (simp add: round1_def fl_d_quot)
qed

subsection \<open>The sum of the phase times is exact\<close>

text \<open>The exact sum the float additions compute.\<close>

definition exact_minutes :: "phase list \<Rightarrow> rat" where
  "exact_minutes phs =
     sum_list (map (\<lambda>ph. if parallel ph then 5 * (7 / 10) else of_nat (length (containers ph)) * 5) phs)"

definition holds :: "pynum \<Rightarrow> rat \<Rightarrow> bool" where
  "holds v x \<longleftrightarrow> (v = PyFloat x \<or> (\<exists>k. v = PyInt k \<and> x = of_int k))"

lemma phase_time_parallel:
  "py_mul (PyInt (int base_time_per_container)) parallel_efficiency = PyFloat (7 / 2)"
proof -
  have "fl (of_int 5) = (of_int 5 :: rat)" by (rule fl_int) simp
  then have "fl 5 = (5::rat)" by simp
  then show ?thesis
    by (simp add: base_time_per_container_def parallel_efficiency_def to_float_def fl_0_7
        fl_5_times_0_7)
qed

lemma to_float_holds:
  assumes "holds v x" "\<bar>x\<bar> < 2 ^ 52"
  shows "to_float v = x"
  using assms fl_int by (auto simp: holds_def to_float_def)

lemma half_integer_add:
  assumes "\<exists>k::int. x = of_int k / 2" "\<exists>k::int. y = of_int k / 2"
  shows "\<exists>k::int. x + y = (of_int k / 2 :: rat)"
proof -
  from assms obtain a b :: int where "x = of_int a / 2" "y = of_int b / 2" by blast
  then have "x + y = of_int (a + b) / 2" by (simp add: add_divide_distrib)
  then show ?thesis by blast
qed

lemma py_add_holds:
  assumes a: "holds v x" "\<exists>k::int. x = of_int k / 2"
    and b: "holds w y" "\<exists>k::int. y = of_int k / 2"
    and nn: "0 \<le> x" "0 \<le> y" and bound: "x + y < 2 ^ 52"
  shows "holds (py_add v w) (x + y)"
proof (cases "(\<exists>i. v = PyInt i) \<and> (\<exists>j. w = PyInt j)")
  case True
  then obtain i j where "v = PyInt i" "w = PyInt j" by blast
  then show ?thesis using a(1) b(1) by (auto simp: holds_def)
next
  case False
  have "\<bar>x\<bar> < 2 ^ 52" "\<bar>y\<bar> < 2 ^ 52" using nn bound by auto
  then have tf: "to_float v = x" "to_float w = y"
    using a(1) b(1) by (auto intro: to_float_holds)
  from half_integer_add [OF a(2) b(2)] obtain k :: int where k: "x + y = of_int k / 2" by blast
  have "fl (x + y) = x + y"
    unfolding k using nn bound k by (intro fl_half_integer) auto
  moreover have "py_add v w = PyFloat (fl (to_float v + to_float w))"
    using False by (cases v; cases w) auto
  ultimately show ?thesis by (simp add: tf holds_def)
qed

definition exact_phase_time :: "phase \<Rightarrow> rat" where
  "exact_phase_time ph = (if parallel ph then 5 * (7 / 10) else of_nat (length (containers ph)) * 5)"

lemma exact_minutes_Cons:
  "exact_minutes (ph # phs) = exact_phase_time ph + exact_minutes phs"
  "exact_minutes [] = 0"
  by (simp_all add: exact_minutes_def exact_phase_time_def)

lemma exact_phase_time_props:
  "holds (phase_time ph) (exact_phase_time ph)"
  "\<exists>k::int. exact_phase_time ph = of_int k / 2"
  "0 \<le> exact_phase_time ph"
  "exact_phase_time ph \<le> 5 * (of_nat (length (containers ph)) + 1)"
proof -
  show "holds (phase_time ph) (exact_phase_time ph)"
  proof (cases "parallel ph")
    case True
    then have "phase_time ph = PyFloat (7 / 2)"
      unfolding phase_time_def using phase_time_parallel by simp
    then show ?thesis using True by (simp add: exact_phase_time_def holds_def)
  next
    case False
    then show ?thesis
      by (simp add: phase_time_def exact_phase_time_def holds_def base_time_per_container_def)
  qed
  show "\<exists>k::int. exact_phase_time ph = of_int k / 2"
  proof (cases "parallel ph")
    case True
    then have "exact_phase_time ph = of_int 7 / 2" by (simp add: exact_phase_time_def)
    then show ?thesis by blast
  next
    case False
    then have "exact_phase_time ph = of_int (2 * (int (length (containers ph)) * 5)) / 2"
      by (simp add: exact_phase_time_def)
    then show ?thesis by blast
  qed
  show "0 \<le> exact_phase_time ph" by (simp add: exact_phase_time_def)
  show "exact_phase_time ph \<le> 5 * (of_nat (length (containers ph)) + 1)"
    by (simp add: exact_phase_time_def)
qed

lemma exact_minutes_nonneg: "0 \<le> exact_minutes phs"
  by (induction phs) (simp_all add: exact_minutes_Cons exact_phase_time_props(3))

lemma exact_minutes_bound:
  "exact_minutes phs
     \<le> 5 * of_nat (sum_list (map (\<lambda>ph. length (containers ph)) phs) + length phs)"
proof (induction phs)
  case Nil
  then show ?case by (simp add: exact_minutes_Cons)
next
  case (Cons ph phs)
  show ?case
    using Cons exact_phase_time_props(4) [of ph]
    by (simp add: exact_minutes_Cons algebra_simps)
qed

lemma parallel_minutes_fold:
  assumes "holds acc a" "\<exists>k::int. a = of_int k / 2" "0 \<le> a" "a + exact_minutes phs < 2 ^ 52"
  shows "holds (fold (\<lambda>ph acc. py_add acc (phase_time ph)) phs acc) (a + exact_minutes phs)"
  using assms
proof (induction phs arbitrary: acc a)
  case Nil
  then show ?case by (simp add: exact_minutes_Cons)
next
  case (Cons ph phs)
  let ?p = "exact_phase_time ph"
  note p = exact_phase_time_props [of ph]
  have b: "a + ?p < 2 ^ 52"
    using Cons.prems(4) exact_minutes_nonneg [of phs] by (simp add: exact_minutes_Cons)
  have h: "holds (py_add acc (phase_time ph)) (a + ?p)"
    using Cons.prems(1,2) p(1,2) Cons.prems(3) p(3) b by (rule py_add_holds)
  have "holds (fold (\<lambda>ph acc. py_add acc (phase_time ph)) phs (py_add acc (phase_time ph)))
          (a + ?p + exact_minutes phs)"
    using h half_integer_add [OF Cons.prems(2) p(2)] Cons.prems(3,4) p(3)
    by (intro Cons.IH) (simp_all add: exact_minutes_Cons add.assoc)
  then show ?case by (simp add: exact_minutes_Cons add.assoc)
qed

lemma parallel_minutes_holds:
  assumes "exact_minutes phs < 2 ^ 52"
  shows "holds (parallel_minutes phs) (exact_minutes phs)"
proof -
  have "holds (PyInt 0) 0" by (simp add: holds_def)
  moreover have "\<exists>k::int. (0::rat) = of_int k / 2" by (intro exI [of _ 0]) simp
  ultimately show ?thesis
    using parallel_minutes_fold [of "PyInt 0" 0 phs] assms by (simp add: parallel_minutes_def)
qed

lemma py_int_holds: "holds v x \<Longrightarrow> 0 \<le> x \<Longrightarrow> py_int v = \<lfloor>x\<rfloor>"
  by (auto simp: holds_def)

lemma py_truediv_holds:
  assumes "holds v x" "\<bar>x\<bar> < 2 ^ 52" "\<bar>of_int j :: rat\<bar> < 2 ^ 52"
  shows "py_truediv v (PyInt j) = PyFloat (fl (x / of_int j))"
proof (cases v)
  case (PyInt i)
  then show ?thesis using assms(1) by (simp add: holds_def)
next
  case (PyFloat y)
  then show ?thesis using assms(1) fl_int [OF assms(3)] by (simp add: holds_def to_float_def)
qed

lemma fl_1: "fl 1 = 1"
  using fl_int [of 1] by simp

lemma fl_100: "fl 100 = 100"
  using fl_int [of 100] by simp


text \<open>
  Claim C8, as stated, fails in the reported parallel minutes: the estimator returns
  \<open>int(parallel_minutes)\<close>. For one parallel phase of three independent nodes the
  sum is the float \<open>5 * 0.7 = 3.5\<close> and the reported \<open>estimated_parallel_minutes\<close>
  is 3.
\<close>

theorem parallel_minutes_truncated_counterexample:
  "parallel_minutes [\<lparr>name = ''Phase 1'', containers = [''a'', ''b'', ''c''], parallel = True,
        description = ''Migrate containers with dependency level 0'', special = False,
        phase_cycles = []\<rparr>] = PyFloat (7 / 2)
   \<and> estimated_parallel_minutes (estimate_migration_duration
       [\<lparr>name = ''Phase 1'', containers = [''a'', ''b'', ''c''], parallel = True,
         description = ''Migrate containers with dependency level 0'', special = False,
         phase_cycles = []\<rparr>]) = 3
   \<and> of_int (estimated_parallel_minutes (estimate_migration_duration
       [\<lparr>name = ''Phase 1'', containers = [''a'', ''b'', ''c''], parallel = True,
         description = ''Migrate containers with dependency level 0'', special = False,
         phase_cycles = []\<rparr>])) \<noteq> (5 * (7 / 10) :: rat)"
proof -
  have pm: "parallel_minutes [\<lparr>name = ''Phase 1'', containers = [''a'', ''b'', ''c''],
        parallel = True, description = ''Migrate containers with dependency level 0'',
        special = False, phase_cycles = []\<rparr>] = PyFloat (7 / 2)"
    using fl_half_integer [of 7]
    by (simp add: parallel_minutes_def phase_time_def phase_time_parallel to_float_def fl_def)
  show ?thesis
    unfolding estimate_migration_duration_def Let_def pm
    by (simp add: floor_7_2)
qed

lemma fl_60: "fl 60 = 60"
  using fl_int [of 60] by simp

lemma estimate_values_general:
  assumes "sum_list (map (\<lambda>ph. length (containers ph)) phs) + length phs < 2 ^ 49"
  shows "let d = estimate_migration_duration phs;
             total = sum_list (map (\<lambda>ph. length (containers ph)) phs);
             pm = sum_list (map (\<lambda>ph. if parallel ph then 5 * (7 / 10 :: rat)
                                     else of_nat (length (containers ph)) * 5) phs)
         in total_containers d = total
          \<and> estimated_sequential_minutes d = total * 5
          \<and> estimated_parallel_minutes d = \<lfloor>pm\<rfloor>
          \<and> time_savings_percent d
              = (if total = 0 then PyInt 0
                 else PyFloat (round1 (fl (fl (1 - fl (pm / of_nat (total * 5))) * 100))))
          \<and> estimated_sequential_hours d = PyFloat (round1 (fl (of_nat (total * 5) / 60)))
          \<and> estimated_parallel_hours d = PyFloat (round1 (fl (pm / 60)))"
proof -
  define total where "total = sum_list (map (\<lambda>ph. length (containers ph)) phs)"
  define pm where "pm = exact_minutes phs"
  have "pm \<le> 5 * of_nat (total + length phs)"
    unfolding pm_def total_def by (rule exact_minutes_bound)
  also have "(of_nat (total + length phs) :: rat) < of_nat (2 ^ 49)"
    using assms unfolding total_def by (simp only: of_nat_less_iff)
  then have "5 * (of_nat (total + length phs) :: rat) < 2 ^ 52" by simp
  finally have pm_bound: "pm < 2 ^ 52" .
  have pm_nn: "0 \<le> pm" unfolding pm_def by (rule exact_minutes_nonneg)
  have h: "holds (parallel_minutes phs) pm"
    unfolding pm_def using pm_bound unfolding pm_def by (rule parallel_minutes_holds)
  have "total < 2 ^ 49" using assms unfolding total_def by simp
  then have "(of_nat total :: rat) < of_nat (2 ^ 49)" by (simp only: of_nat_less_iff)
  then have sm_bound: "\<bar>of_int (int (total * 5)) :: rat\<bar> < 2 ^ 52" by simp
  have pi: "py_int (parallel_minutes phs) = \<lfloor>pm\<rfloor>"
    using h pm_nn by (rule py_int_holds)
  have q: "py_truediv (parallel_minutes phs) (PyInt (int (total * 5)))
           = PyFloat (fl (pm / of_nat (total * 5)))"
    using py_truediv_holds [OF h _ sm_bound] pm_bound pm_nn by simp
  have sv: "py_round1 (py_mul (py_sub (PyInt 1)
                    (py_truediv (parallel_minutes phs) (PyInt (int (total * 5))))) (PyInt 100))
          = PyFloat (round1 (fl (fl (1 - fl (pm / of_nat (total * 5))) * 100)))"
    unfolding q by (simp add: to_float_def fl_1 fl_100)
  have ph: "py_round1 (py_truediv (parallel_minutes phs) (PyInt 60))
          = PyFloat (round1 (fl (pm / 60)))"
    using py_truediv_holds [OF h, of 60] pm_bound pm_nn by simp
  have sh: "py_round1 (py_truediv (PyInt (int (total * 5))) (PyInt 60))
          = PyFloat (round1 (fl (of_nat (total * 5) / 60)))"
    by simp
  show ?thesis
    unfolding Let_def estimate_migration_duration_def total_def [symmetric]
      exact_minutes_def [symmetric] pm_def [symmetric] base_time_per_container_def
    using pi sv ph sh by (cases "total = 0") simp_all
qed

text \<open>
  Claim C8, amended. For every phase list (of fewer than \<open>2^49\<close> phases and containers
  together, so that every sum below is an exact float) the estimator returns the
  sequential minutes as five times the total node count; \<open>estimated_parallel_minutes\<close>
  as the integer part of the sum over the phases of \<open>5 \<times> 0.7\<close> for a parallel phase
  and of five times the node count for any other; and \<open>time_savings_percent\<close> as
  \<open>round((1 - parallel / sequential) \<times> 100, 1)\<close> evaluated in binary floating point on
  the untruncated sum, each operation rounded, the \<open>int\<close> 0 when there is no node. The
  hour fields are the minute values divided by 60 in floating point and rounded to one
  decimal. For one parallel phase of three nodes: 15 minutes sequential, 3 minutes
  parallel as reported, and the float nearest to 76.7 percent.
\<close>

theorem estimate_migration_duration_values:
  assumes "sum_list (map (\<lambda>ph. length (containers ph)) phs) + length phs < 2 ^ 49"
  shows "(let d = estimate_migration_duration phs;
             total = sum_list (map (\<lambda>ph. length (containers ph)) phs);
             pm = sum_list (map (\<lambda>ph. if parallel ph then 5 * (7 / 10 :: rat)
                                     else of_nat (length (containers ph)) * 5) phs)
         in total_containers d = total
          \<and> estimated_sequential_minutes d = total * 5
          \<and> estimated_parallel_minutes d = \<lfloor>pm\<rfloor>
          \<and> time_savings_percent d
              = (if total = 0 then PyInt 0
                 else PyFloat (round1 (fl (fl (1 - fl (pm / of_nat (total * 5))) * 100))))
          \<and> estimated_sequential_hours d = PyFloat (round1 (fl (of_nat (total * 5) / 60)))
          \<and> estimated_parallel_hours d = PyFloat (round1 (fl (pm / 60))))
   \<and> (let d3 = estimate_migration_duration
         [\<lparr>name = ''Phase 1'', containers = [''a'', ''b'', ''c''], parallel = True,
           description = ''Migrate containers with dependency level 0'', special = False,
           phase_cycles = []\<rparr>]
      in estimated_sequential_minutes d3 = 15
       \<and> estimated_parallel_minutes d3 = 3
       \<and> time_savings_percent d3 = PyFloat (fl (767 / 10)))"
proof -
  have "let d3 = estimate_migration_duration
         [\<lparr>name = ''Phase 1'', containers = [''a'', ''b'', ''c''], parallel = True,
           description = ''Migrate containers with dependency level 0'', special = False,
           phase_cycles = []\<rparr>]
      in estimated_sequential_minutes d3 = 15
       \<and> estimated_parallel_minutes d3 = 3
       \<and> time_savings_percent d3 = PyFloat (fl (767 / 10))"
    using estimate_values_general [of "[\<lparr>name = ''Phase 1'', containers = [''a'', ''b'', ''c''], parallel = True,
           description = ''Migrate containers with dependency level 0'', special = False,
           phase_cycles = []\<rparr>]"]
    by (simp add: Let_def floor_7_2 savings_a)
  with estimate_values_general [OF assms] show ?thesis by (intro conjI)
qed

text \<open>
  The theorem at three phase lists where exact arithmetic and floating point part: five
  sequential and three parallel nodes give 28.7 percent (the exact value is 28.75), eight
  nodes with 15.5 parallel minutes give 61.3 (exactly 61.25), and six parallel phases
  give 0.3 parallel hours (exactly 0.35).
\<close>

theorem estimate_migration_duration_values_witness:
  "sum_list (map (\<lambda>ph. length (containers ph))
     [\<lparr>name = ''Phase'', containers = [''a'', ''b'', ''c'', ''d'', ''e''], parallel = False, description = [], special = False, phase_cycles = []\<rparr>,
      \<lparr>name = ''Phase'', containers = [''f'', ''g'', ''h''], parallel = True, description = [], special = False, phase_cycles = []\<rparr>]) + length
     [\<lparr>name = ''Phase'', containers = [''a'', ''b'', ''c'', ''d'', ''e''], parallel = False, description = [], special = False, phase_cycles = []\<rparr>,
      \<lparr>name = ''Phase'', containers = [''f'', ''g'', ''h''], parallel = True, description = [], special = False, phase_cycles = []\<rparr>] < 2 ^ 49
   \<and> estimated_sequential_minutes (estimate_migration_duration
     [\<lparr>name = ''Phase'', containers = [''a'', ''b'', ''c'', ''d'', ''e''], parallel = False, description = [], special = False, phase_cycles = []\<rparr>,
      \<lparr>name = ''Phase'', containers = [''f'', ''g'', ''h''], parallel = True, description = [], special = False, phase_cycles = []\<rparr>]) = 40
   \<and> estimated_parallel_minutes (estimate_migration_duration
     [\<lparr>name = ''Phase'', containers = [''a'', ''b'', ''c'', ''d'', ''e''], parallel = False, description = [], special = False, phase_cycles = []\<rparr>,
      \<lparr>name = ''Phase'', containers = [''f'', ''g'', ''h''], parallel = True, description = [], special = False, phase_cycles = []\<rparr>]) = 28
   \<and> time_savings_percent (estimate_migration_duration
     [\<lparr>name = ''Phase'', containers = [''a'', ''b'', ''c'', ''d'', ''e''], parallel = False, description = [], special = False, phase_cycles = []\<rparr>,
      \<lparr>name = ''Phase'', containers = [''f'', ''g'', ''h''], parallel = True, description = [], special = False, phase_cycles = []\<rparr>]) = PyFloat (fl (287 / 10))
   \<and> time_savings_percent (estimate_migration_duration
     [\<lparr>name = ''Phase'', containers = [''a'', ''b''], parallel = True, description = [], special = False, phase_cycles = []\<rparr>,
      \<lparr>name = ''Phase'', containers = [''c'', ''d''], parallel = True, description = [], special = False, phase_cycles = []\<rparr>,
      \<lparr>name = ''Phase'', containers = [''e'', ''f'', ''g''], parallel = True, description = [], special = False, phase_cycles = []\<rparr>,
      \<lparr>name = ''Phase'', containers = [''h''], parallel = False, description = [], special = False, phase_cycles = []\<rparr>]) = PyFloat (fl (613 / 10))
   \<and> estimated_parallel_hours (estimate_migration_duration
     [\<lparr>name = ''Phase'', containers = [''a'', ''b''], parallel = True, description = [], special = False, phase_cycles = []\<rparr>,
      \<lparr>name = ''Phase'', containers = [''c'', ''d''], parallel = True, description = [], special = False, phase_cycles = []\<rparr>,
      \<lparr>name = ''Phase'', containers = [''e'', ''f''], parallel = True, description = [], special = False, phase_cycles = []\<rparr>,
      \<lparr>name = ''Phase'', containers = [''g'', ''h''], parallel = True, description = [], special = False, phase_cycles = []\<rparr>,
      \<lparr>name = ''Phase'', containers = [''i'', ''j''], parallel = True, description = [], special = False, phase_cycles = []\<rparr>,
      \<lparr>name = ''Phase'', containers = [''k'', ''l''], parallel = True, description = [], special = False, phase_cycles = []\<rparr>]) = PyFloat (fl (3 / 10))"
proof -
  have f: "\<lfloor>57 / 2 :: rat\<rfloor> = 28" by (simp add: floor_eq_iff)
  have a: "estimated_sequential_minutes (estimate_migration_duration
     [\<lparr>name = ''Phase'', containers = [''a'', ''b'', ''c'', ''d'', ''e''], parallel = False, description = [], special = False, phase_cycles = []\<rparr>,
      \<lparr>name = ''Phase'', containers = [''f'', ''g'', ''h''], parallel = True, description = [], special = False, phase_cycles = []\<rparr>]) = 40
   \<and> estimated_parallel_minutes (estimate_migration_duration
     [\<lparr>name = ''Phase'', containers = [''a'', ''b'', ''c'', ''d'', ''e''], parallel = False, description = [], special = False, phase_cycles = []\<rparr>,
      \<lparr>name = ''Phase'', containers = [''f'', ''g'', ''h''], parallel = True, description = [], special = False, phase_cycles = []\<rparr>]) = 28
   \<and> time_savings_percent (estimate_migration_duration
     [\<lparr>name = ''Phase'', containers = [''a'', ''b'', ''c'', ''d'', ''e''], parallel = False, description = [], special = False, phase_cycles = []\<rparr>,
      \<lparr>name = ''Phase'', containers = [''f'', ''g'', ''h''], parallel = True, description = [], special = False, phase_cycles = []\<rparr>]) = PyFloat (fl (287 / 10))"
    using estimate_migration_duration_values [of
     "[\<lparr>name = ''Phase'', containers = [''a'', ''b'', ''c'', ''d'', ''e''], parallel = False, description = [], special = False, phase_cycles = []\<rparr>,
      \<lparr>name = ''Phase'', containers = [''f'', ''g'', ''h''], parallel = True, description = [], special = False, phase_cycles = []\<rparr>]"]
    by (simp add: Let_def f savings_b)
  have b: "time_savings_percent (estimate_migration_duration
     [\<lparr>name = ''Phase'', containers = [''a'', ''b''], parallel = True, description = [], special = False, phase_cycles = []\<rparr>,
      \<lparr>name = ''Phase'', containers = [''c'', ''d''], parallel = True, description = [], special = False, phase_cycles = []\<rparr>,
      \<lparr>name = ''Phase'', containers = [''e'', ''f'', ''g''], parallel = True, description = [], special = False, phase_cycles = []\<rparr>,
      \<lparr>name = ''Phase'', containers = [''h''], parallel = False, description = [], special = False, phase_cycles = []\<rparr>]) = PyFloat (fl (613 / 10))"
    using estimate_migration_duration_values [of
     "[\<lparr>name = ''Phase'', containers = [''a'', ''b''], parallel = True, description = [], special = False, phase_cycles = []\<rparr>,
      \<lparr>name = ''Phase'', containers = [''c'', ''d''], parallel = True, description = [], special = False, phase_cycles = []\<rparr>,
      \<lparr>name = ''Phase'', containers = [''e'', ''f'', ''g''], parallel = True, description = [], special = False, phase_cycles = []\<rparr>,
      \<lparr>name = ''Phase'', containers = [''h''], parallel = False, description = [], special = False, phase_cycles = []\<rparr>]"]
    by (simp add: Let_def savings_c)
  have c: "estimated_parallel_hours (estimate_migration_duration
     [\<lparr>name = ''Phase'', containers = [''a'', ''b''], parallel = True, description = [], special = False, phase_cycles = []\<rparr>,
      \<lparr>name = ''Phase'', containers = [''c'', ''d''], parallel = True, description = [], special = False, phase_cycles = []\<rparr>,
      \<lparr>name = ''Phase'', containers = [''e'', ''f''], parallel = True, description = [], special = False, phase_cycles = []\<rparr>,
      \<lparr>name = ''Phase'', containers = [''g'', ''h''], parallel = True, description = [], special = False, phase_cycles = []\<rparr>,
      \<lparr>name = ''Phase'', containers = [''i'', ''j''], parallel = True, description = [], special = False, phase_cycles = []\<rparr>,
      \<lparr>name = ''Phase'', containers = [''k'', ''l''], parallel = True, description = [], special = False, phase_cycles = []\<rparr>]) = PyFloat (fl (3 / 10))"
    using estimate_migration_duration_values [of
     "[\<lparr>name = ''Phase'', containers = [''a'', ''b''], parallel = True, description = [], special = False, phase_cycles = []\<rparr>,
      \<lparr>name = ''Phase'', containers = [''c'', ''d''], parallel = True, description = [], special = False, phase_cycles = []\<rparr>,
      \<lparr>name = ''Phase'', containers = [''e'', ''f''], parallel = True, description = [], special = False, phase_cycles = []\<rparr>,
      \<lparr>name = ''Phase'', containers = [''g'', ''h''], parallel = True, description = [], special = False, phase_cycles = []\<rparr>,
      \<lparr>name = ''Phase'', containers = [''i'', ''j''], parallel = True, description = [], special = False, phase_cycles = []\<rparr>,
      \<lparr>name = ''Phase'', containers = [''k'', ''l''], parallel = True, description = [], special = False, phase_cycles = []\<rparr>]"]
    by (simp add: Let_def hours_d)
  from a b c show ?thesis by simp
qed

section \<open>Properties of the topological sequencer\<close>

definition unresolved :: "(node \<times> node) list \<Rightarrow> node list \<Rightarrow> node \<Rightarrow> nat" where
  "unresolved es done n = length (filter (\<lambda>e. fst e = n \<and> snd e \<notin> set done) es)"

definition targets_first :: "(node \<times> node) list \<Rightarrow> node list \<Rightarrow> bool" where
  "targets_first es order \<longleftrightarrow>
     (\<forall>i < length order. \<forall>t. (order ! i, t) \<in> set es \<longrightarrow> t \<in> set (take i order))"

definition kahn_inv ::
  "(node \<times> node) list \<Rightarrow> node set \<Rightarrow> (node \<Rightarrow> int) \<Rightarrow> node list \<Rightarrow> node list \<Rightarrow> bool" where
  "kahn_inv es N deg queue order \<longleftrightarrow>
     distinct (order @ queue) \<and> set (order @ queue) \<subseteq> N
   \<and> (\<forall>n. deg n = int (unresolved es order n))
   \<and> (\<forall>n \<in> N. n \<in> set (order @ queue) \<longleftrightarrow> deg n = 0)
   \<and> targets_first es order"

lemma release_spec:
  assumes "\<forall>n. int (count_list ns n) \<le> deg n"
  shows "\<exists>Q. release ns deg q = (\<lambda>n. deg n - int (count_list ns n), q @ Q)
           \<and> distinct Q \<and> set Q = {n \<in> set ns. deg n = int (count_list ns n)}"
  using assms
proof (induction ns arbitrary: deg q)
  case Nil
  then show ?case by simp
next
  case (Cons a ns)
  let ?d = "deg(a := deg a - 1)"
  let ?q = "if ?d a = 0 then q @ [a] else q"
  have pre: "\<forall>n. int (count_list ns n) \<le> ?d n"
  proof
    fix n
    show "int (count_list ns n) \<le> ?d n"
      using Cons.prems [rule_format, of n] by (cases "n = a") simp_all
  qed
  from Cons.IH [OF pre, of ?q] obtain Q where
    Q: "release ns ?d ?q = (\<lambda>n. ?d n - int (count_list ns n), ?q @ Q)"
       "distinct Q" "set Q = {n \<in> set ns. ?d n = int (count_list ns n)}"
    by blast
  have deg_eq: "(\<lambda>n. ?d n - int (count_list ns n)) = (\<lambda>n. deg n - int (count_list (a # ns) n))"
    by (rule ext) simp
  have rel: "release (a # ns) deg q = (\<lambda>n. deg n - int (count_list (a # ns) n), ?q @ Q)"
    using Q(1) unfolding deg_eq by (simp add: Let_def)
  show ?case
  proof (cases "?d a = 0")
    case True
    then have c0: "count_list ns a = 0" using pre [rule_format, of a] by simp
    then have a_notin: "a \<notin> set ns" by (simp add: count_list_0_iff)
    have "a \<notin> set Q" using Q(3) a_notin by simp
    moreover have "set (a # Q) = {n \<in> set (a # ns). deg n = int (count_list (a # ns) n)}"
    proof (intro set_eqI iffI)
      fix x assume "x \<in> set (a # Q)"
      then show "x \<in> {n \<in> set (a # ns). deg n = int (count_list (a # ns) n)}"
        using Q(3) True c0 a_notin by (cases "x = a") auto
    next
      fix x assume "x \<in> {n \<in> set (a # ns). deg n = int (count_list (a # ns) n)}"
      then show "x \<in> set (a # Q)"
        using Q(3) a_notin by (cases "x = a") auto
    qed
    moreover have "release (a # ns) deg q = (\<lambda>n. deg n - int (count_list (a # ns) n), q @ (a # Q))"
      using rel True by simp
    ultimately show ?thesis using Q(2) by (intro exI [of _ "a # Q"]) simp
  next
    case False
    have "set Q = {n \<in> set (a # ns). deg n = int (count_list (a # ns) n)}"
    proof (intro set_eqI iffI)
      fix x assume "x \<in> set Q"
      then show "x \<in> {n \<in> set (a # ns). deg n = int (count_list (a # ns) n)}"
        using Q(3) by (cases "x = a") auto
    next
      fix x assume x: "x \<in> {n \<in> set (a # ns). deg n = int (count_list (a # ns) n)}"
      show "x \<in> set Q"
      proof (cases "x = a")
        case True
        then have "?d a = int (count_list ns a)" using x by simp
        then have "count_list ns a \<noteq> 0" using False by simp
        then have "a \<in> set ns" by (simp add: count_list_0_iff)
        then show ?thesis using Q(3) True \<open>?d a = int (count_list ns a)\<close> by simp
      next
        case False
        then show ?thesis using x Q(3) by auto
      qed
    qed
    moreover have "release (a # ns) deg q = (\<lambda>n. deg n - int (count_list (a # ns) n), q @ Q)"
      using rel False by simp
    ultimately show ?thesis using Q(2) by blast
  qed
qed

definition dependents :: "(node \<times> node) list \<Rightarrow> node \<Rightarrow> node list" where
  "dependents es t = map fst (filter (\<lambda>e. snd e = t) es)"

lemma count_dependents:
  "count_list (dependents es t) n = length (filter (\<lambda>e. fst e = n \<and> snd e = t) es)"
  unfolding dependents_def by (induction es) auto

lemma unresolved_snoc:
  "node \<notin> set order \<Longrightarrow>
   unresolved es order n
     = unresolved es (order @ [node]) n + count_list (dependents es node) n"
  unfolding count_dependents unresolved_def by (induction es) auto

lemma unresolved_0_iff:
  "unresolved es order n = 0 \<longleftrightarrow> (\<forall>t. (n, t) \<in> set es \<longrightarrow> t \<in> set order)"
  unfolding unresolved_def by (auto simp: filter_empty_conv)

lemma set_dependents: "set (dependents es t) = {s. (s, t) \<in> set es}"
  unfolding dependents_def by force

lemma targets_first_snoc:
  assumes "targets_first es order" "\<forall>t. (node, t) \<in> set es \<longrightarrow> t \<in> set order"
  shows "targets_first es (order @ [node])"
  unfolding targets_first_def
proof (intro allI impI)
  fix i t
  assume i: "i < length (order @ [node])" and e: "((order @ [node]) ! i, t) \<in> set es"
  show "t \<in> set (take i (order @ [node]))"
  proof (cases "i < length order")
    case True
    then show ?thesis using assms(1) e by (simp add: targets_first_def nth_append)
  next
    case False
    then have "i = length order" using i by simp
    then show ?thesis using assms(2) e by simp
  qed
qed

lemma kahn_inv_step:
  assumes inv: "kahn_inv es N deg (node # queue) order"
    and src: "fst ` set es \<subseteq> N"
    and rel: "release (dependents es node) deg queue = (deg', queue')"
  shows "kahn_inv es N deg' queue' (order @ [node])"
proof -
  let ?L = "dependents es node"
  from inv have dist: "distinct (order @ node # queue)"
    and sub: "set (order @ node # queue) \<subseteq> N"
    and deg: "\<And>n. deg n = int (unresolved es order n)"
    and zero: "\<And>n. n \<in> N \<Longrightarrow> n \<in> set (order @ node # queue) \<longleftrightarrow> deg n = 0"
    and tf: "targets_first es order"
    unfolding kahn_inv_def by blast+
  have node_new: "node \<notin> set order" using dist by simp
  have split: "\<And>n. deg n = int (unresolved es (order @ [node]) n) + int (count_list ?L n)"
    using unresolved_snoc [OF node_new] deg by simp
  then have pre: "\<forall>n. int (count_list ?L n) \<le> deg n" by simp
  from release_spec [OF pre, of queue] rel obtain Q where
    deg': "deg' = (\<lambda>n. deg n - int (count_list ?L n))" and queue': "queue' = queue @ Q"
    and Q: "distinct Q" "set Q = {n \<in> set ?L. deg n = int (count_list ?L n)}"
    by auto
  have deg'_eq: "\<And>n. deg' n = int (unresolved es (order @ [node]) n)"
    unfolding deg' using split by simp
  have LN: "set ?L \<subseteq> N" using src unfolding set_dependents by force
  have Q_pos: "\<And>n. n \<in> set Q \<Longrightarrow> deg n \<noteq> 0"
    using Q(2) by (auto simp: count_list_0_iff)
  have Q_new: "\<And>n. n \<in> set Q \<Longrightarrow> n \<notin> set (order @ node # queue)"
    using Q_pos zero LN Q(2) by blast
  have d: "distinct ((order @ [node]) @ queue')"
    unfolding queue' using dist Q(1) Q_new by auto
  have s: "set ((order @ [node]) @ queue') \<subseteq> N"
    unfolding queue' using sub LN Q(2) by auto
  have z: "n \<in> set ((order @ [node]) @ queue') \<longleftrightarrow> deg' n = 0" if n: "n \<in> N" for n
  proof (cases "n \<in> set (order @ node # queue)")
    case True
    then have "deg n = 0" using zero [OF n] by simp
    then have "deg' n = 0" using split [of n] deg'_eq [of n] by simp
    then show ?thesis using True unfolding queue' by auto
  next
    case False
    then have nz: "deg n \<noteq> 0" using zero [OF n] by simp
    have "n \<in> set Q \<longleftrightarrow> deg' n = 0"
    proof
      assume "n \<in> set Q"
      then show "deg' n = 0" unfolding deg' using Q(2) by simp
    next
      assume z: "deg' n = 0"
      then have eq: "deg n = int (count_list ?L n)" unfolding deg' by simp
      then have "count_list ?L n \<noteq> 0" using nz by simp
      then have "n \<in> set ?L" by (simp add: count_list_0_iff)
      then show "n \<in> set Q" using Q(2) eq by simp
    qed
    then show ?thesis using False unfolding queue' by auto
  qed
  have "deg node = 0" using zero [of node] sub by simp
  then have "unresolved es order node = 0" using deg [of node] by simp
  then have "\<forall>t. (node, t) \<in> set es \<longrightarrow> t \<in> set order"
    by (simp add: unresolved_0_iff)
  then have t: "targets_first es (order @ [node])"
    using tf by (rule targets_first_snoc [rotated])
  show ?thesis
    unfolding kahn_inv_def using d s deg'_eq z t by blast
qed

lemma kahn_loop_inv:
  assumes "kahn_inv es N deg queue order"
    and "fst ` set es \<subseteq> N"
    and "\<And>t. dd_get g t = dependents es t"
  shows "\<exists>deg'. kahn_inv es N deg' [] (kahn_loop g deg queue order)"
  using assms
proof (induction g deg queue order rule: kahn_loop.induct)
  case (1 graph in_degree startup_order)
  then show ?case by auto
next
  case (2 graph in_degree node queue startup_order)
  obtain deg' queue' where r: "release (dd_get graph node) in_degree queue = (deg', queue')"
    by (cases "release (dd_get graph node) in_degree queue")
  then have r': "release (dependents es node) in_degree queue = (deg', queue')"
    using "2.prems"(3) by simp
  have inv: "kahn_inv es N deg' queue' (startup_order @ [node])"
    using kahn_inv_step [OF "2.prems"(1,2) r'] .
  have "\<exists>d. kahn_inv es N d [] (kahn_loop graph deg' queue' (startup_order @ [node]))"
    using "2.IH" [OF r [symmetric] inv "2.prems"(2,3)] .
  then show ?case using r by simp
qed

definition reverse_step :: "node \<times> node \<Rightarrow> (node \<Rightarrow> int) \<times> depmap \<Rightarrow> (node \<Rightarrow> int) \<times> depmap" where
  "reverse_step e st = (case st of (deg, g) \<Rightarrow>
      (deg(fst e := deg (fst e) + 1), graph_append g (snd e) (fst e)))"

lemma build_reverse_fold:
  "build_reverse deps = fold reverse_step (dep_edges deps) (\<lambda>_. 0, [])"
proof -
  have inner: "fold (\<lambda>target (in_degree, graph).
                   (in_degree(s := in_degree s + 1), graph_append graph target s)) ts st
             = fold reverse_step (map (Pair s) ts) st" for s ts st
    by (induction ts arbitrary: st) (auto simp: reverse_step_def split: prod.splits)
  have "fold (\<lambda>(source, targets) st.
            fold (\<lambda>target (in_degree, graph).
                   (in_degree(source := in_degree source + 1), graph_append graph target source))
                 targets st) deps st
        = fold reverse_step (dep_edges deps) st" for st
    by (induction deps arbitrary: st) (auto simp: dep_edges_def inner)
  then show ?thesis by (simp add: build_reverse_def)
qed

lemma dd_get_graph_append:
  "dd_get (graph_append g t s) t' = (if t' = t then dd_get g t @ [s] else dd_get g t')"
  by (simp add: dd_get_def graph_append_def update_conv')

lemma fold_reverse_step:
  "fold reverse_step es (\<lambda>_. 0, []) = (deg, g) \<Longrightarrow>
     (\<forall>n. deg n = int (length (filter (\<lambda>e. fst e = n) es)))
   \<and> (\<forall>t. dd_get g t = dependents es t)"
proof (induction es arbitrary: deg g rule: rev_induct)
  case Nil
  then show ?case by (auto simp: dd_get_def dependents_def)
next
  case (snoc e es)
  obtain d0 g0 where st: "fold reverse_step es (\<lambda>_. 0, []) = (d0, g0)"
    by (cases "fold reverse_step es (\<lambda>_. 0, [])")
  from snoc.IH [OF st] have ih: "\<And>n. d0 n = int (length (filter (\<lambda>e. fst e = n) es))"
    "\<And>t. dd_get g0 t = dependents es t" by auto
  from snoc.prems st have "reverse_step e (d0, g0) = (deg, g)"
    by simp
  then have "deg = d0(fst e := d0 (fst e) + 1)"
    "g = graph_append g0 (snd e) (fst e)"
    by (auto simp: reverse_step_def)
  then show ?case
    using ih by (auto simp: dd_get_graph_append dependents_def)
qed

lemma build_reverse_spec:
  assumes "build_reverse deps = (deg, g)"
  shows "deg n = int (unresolved (dep_edges deps) [] n)"
    and "dd_get g t = dependents (dep_edges deps) t"
  using fold_reverse_step [of "dep_edges deps" deg g] assms
  by (simp_all add: build_reverse_fold unresolved_def)

lemma kahn_inv_initial:
  assumes "build_reverse deps = (deg, g)" "distinct ns" "set ns = N"
  shows "kahn_inv (dep_edges deps) N deg (filter (\<lambda>n. deg n = 0) ns) []"
  unfolding kahn_inv_def
  using assms(2,3) build_reverse_spec(1) [OF assms(1)]
  by (auto simp: targets_first_def)

text \<open>What holds of the order the sequencer returns, for every dependency map and every
  enumeration \<open>ns\<close> of a node set that contains every source.\<close>

lemma startup_order_props:
  assumes "distinct ns" "fst ` set (dep_edges deps) \<subseteq> set ns"
  defines "r \<equiv> calculate_startup_order_in ns deps"
  shows "distinct r" and "set r \<subseteq> set ns" and "targets_first (dep_edges deps) r"
    and "\<And>n. n \<in> set ns \<Longrightarrow>
           n \<in> set r \<longleftrightarrow> (\<forall>t. (n, t) \<in> set (dep_edges deps) \<longrightarrow> t \<in> set r)"
proof -
  obtain deg g where b: "build_reverse deps = (deg, g)"
    by (cases "build_reverse deps")
  have r: "r = kahn_loop g deg (filter (\<lambda>n. deg n = 0) ns) []"
    unfolding r_def calculate_startup_order_in_def b by simp
  from kahn_loop_inv [OF kahn_inv_initial [OF b assms(1) refl] assms(2) build_reverse_spec(2) [OF b]]
  obtain deg' where inv: "kahn_inv (dep_edges deps) (set ns) deg' [] r"
    unfolding r by blast
  then show "distinct r" "set r \<subseteq> set ns" "targets_first (dep_edges deps) r"
    unfolding kahn_inv_def by auto
  fix n assume "n \<in> set ns"
  with inv have "n \<in> set r \<longleftrightarrow> unresolved (dep_edges deps) r n = 0"
    unfolding kahn_inv_def by auto
  then show "n \<in> set r \<longleftrightarrow> (\<forall>t. (n, t) \<in> set (dep_edges deps) \<longrightarrow> t \<in> set r)"
    by (simp add: unresolved_0_iff)
qed

lemma index_of_nth: "x \<in> set xs \<Longrightarrow> index_of xs x < length xs \<and> xs ! index_of xs x = x"
  by (induction xs) auto

lemma index_of_take: "x \<in> set (take i xs) \<Longrightarrow> index_of xs x < i"
proof (induction xs arbitrary: i)
  case Nil
  then show ?case by simp
next
  case (Cons y ys)
  then show ?case by (cases i) auto
qed

lemma index_of_inj: "distinct xs \<Longrightarrow> i < length xs \<Longrightarrow> index_of xs (xs ! i) = i"
proof (induction xs arbitrary: i)
  case Nil
  then show ?case by simp
next
  case (Cons y ys)
  then show ?case by (cases i) auto
qed

lemma targets_first_edge:
  assumes "targets_first es r" "distinct r" "(s, t) \<in> set es" "s \<in> set r"
  shows "t \<in> set r \<and> index_of r t < index_of r s"
proof -
  let ?i = "index_of r s"
  have i: "?i < length r" "r ! ?i = s"
    using index_of_nth [OF assms(4)] by auto
  then have "t \<in> set (take ?i r)"
    using assms(1,3) unfolding targets_first_def by metis
  then show ?thesis using index_of_take [of t ?i r] by (auto dest: in_set_takeD)
qed

lemma targets_first_path:
  assumes "targets_first es r" "distinct r" "(s, t) \<in> (set es)\<^sup>+" "s \<in> set r"
  shows "t \<in> set r \<and> index_of r t < index_of r s"
  using assms(3,4)
proof (induction rule: trancl_induct)
  case (base y)
  then show ?case using targets_first_edge [OF assms(1,2)] by blast
next
  case (step y z)
  then have "y \<in> set r" "index_of r y < index_of r s" by auto
  moreover have "z \<in> set r \<and> index_of r z < index_of r y"
    using targets_first_edge [OF assms(1,2) step(2)] \<open>y \<in> set r\<close> by blast
  ultimately show ?case by auto
qed

lemma cyclic_node_not_ordered:
  assumes "distinct ns" "fst ` set (dep_edges deps) \<subseteq> set ns"
    and "(x, x) \<in> (set (dep_edges deps))\<^sup>+"
  shows "x \<notin> set (calculate_startup_order_in ns deps)"
  using targets_first_path [OF startup_order_props(3,1) [OF assms(1,2)] assms(3)]
  by auto

lemma startup_order_complete:
  assumes "distinct ns" "fst ` set (dep_edges deps) \<union> snd ` set (dep_edges deps) \<subseteq> set ns"
    and "acyclic (set (dep_edges deps))"
  shows "set (calculate_startup_order_in ns deps) = set ns"
proof (rule ccontr)
  let ?r = "calculate_startup_order_in ns deps"
  let ?E = "set (dep_edges deps)"
  have src: "fst ` ?E \<subseteq> set ns" using assms(2) by simp
  assume "set ?r \<noteq> set ns"
  then obtain u where u: "u \<in> set ns - set ?r"
    using startup_order_props(2) [OF assms(1) src] by auto
  have "wf (?E\<inverse>)"
    using assms(3) by (intro finite_acyclic_wf_converse) simp_all
  from wfE_min [OF this u] obtain z where z: "z \<in> set ns - set ?r"
    and min: "\<And>y. (y, z) \<in> ?E\<inverse> \<Longrightarrow> y \<notin> set ns - set ?r"
    by blast
  from z startup_order_props(4) [OF assms(1) src, of z]
  obtain t where t: "(z, t) \<in> ?E" "t \<notin> set ?r" by auto
  then have "t \<in> set ns" using assms(2) by force
  with t min [of t] show False by auto
qed

text \<open>
  Claim C10. For every dependency map, and whatever the order in which the node set is
  iterated, the startup order has no duplicate entry and every entry is a node of the
  graph: a key of the map or a member of one of its values.
\<close>

theorem startup_order_no_duplicates:
  assumes "distinct ns" "set ns = set (all_nodes dependencies)"
  shows "distinct (calculate_startup_order_in ns dependencies)
     \<and> set (calculate_startup_order_in ns dependencies)
         \<subseteq> fst ` set dependencies \<union> \<Union> (set ` snd ` set dependencies)"
proof -
  have "fst ` set (dep_edges dependencies) \<subseteq> set ns"
    unfolding assms(2) set_all_nodes_edges by (force simp: set_dep_edges)
  from startup_order_props(1,2) [OF assms(1) this]
  show ?thesis unfolding assms(2) set_all_nodes by simp
qed

theorem startup_order_no_duplicates_witness:
  "distinct (all_nodes [(''X'', [''Y'']), (''Y'', [''X'']), (''Z'', [''X'']), (''W'', [])])
   \<and> calculate_startup_order [(''X'', [''Y'']), (''Y'', [''X'']), (''Z'', [''X'']), (''W'', [])]
       = [''W'']
   \<and> distinct (calculate_startup_order [(''X'', [''Y'']), (''Y'', [''X'']), (''Z'', [''X'']), (''W'', [])])
   \<and> set (calculate_startup_order [(''X'', [''Y'']), (''Y'', [''X'']), (''Z'', [''X'']), (''W'', [])])
       \<subseteq> {''X'', ''Y'', ''Z'', ''W''}"
proof -
  let ?d = "[(''X'', [''Y'']), (''Y'', [''X'']), (''Z'', [''X'']), (''W'', [])]"
  have d: "distinct (all_nodes ?d)" by (rule distinct_all_nodes)
  have v: "calculate_startup_order ?d = [''W'']"
    by (simp add: calculate_startup_order_def calculate_startup_order_in_def build_reverse_def
     graph_append_def dd_get_def all_nodes_def set_update_def set_add_def)
  show ?thesis
    using startup_order_no_duplicates [OF d refl] d v
    unfolding calculate_startup_order_def [symmetric] by auto
qed

text \<open>
  Claim C1. For every acyclic dependency graph, and whatever the order in which the node
  set is iterated, the startup order has exactly as many entries as the graph has nodes,
  and for every edge (source, target) the target stands at an earlier index than the
  source.
\<close>

theorem startup_order_acyclic:
  assumes "acyclic (set (dep_edges dependencies))"
    and "distinct ns" "set ns = set (all_nodes dependencies)"
  shows "length (calculate_startup_order_in ns dependencies) = length (all_nodes dependencies)
     \<and> set (calculate_startup_order_in ns dependencies) = set (all_nodes dependencies)
     \<and> (\<forall>(source, target) \<in> set (dep_edges dependencies).
           index_of (calculate_startup_order_in ns dependencies) target
         < index_of (calculate_startup_order_in ns dependencies) source)"
proof -
  let ?r = "calculate_startup_order_in ns dependencies"
  have sub: "fst ` set (dep_edges dependencies) \<union> snd ` set (dep_edges dependencies) \<subseteq> set ns"
    unfolding assms(3) set_all_nodes_edges by (force simp: set_dep_edges)
  then have src: "fst ` set (dep_edges dependencies) \<subseteq> set ns" by simp
  have all: "set ?r = set ns"
    using startup_order_complete [OF assms(2) sub assms(1)] .
  have d: "distinct ?r" using startup_order_props(1) [OF assms(2) src] .
  have "length ?r = card (set ns)" using d all by (metis distinct_card)
  also have "\<dots> = length (all_nodes dependencies)"
    unfolding assms(3) using distinct_all_nodes by (metis distinct_card)
  finally have len: "length ?r = length (all_nodes dependencies)" .
  have "index_of ?r t < index_of ?r s" if "(s, t) \<in> set (dep_edges dependencies)" for s t
  proof -
    have "s \<in> set ?r" using that src all by force
    then show ?thesis
      using targets_first_edge [OF startup_order_props(3) [OF assms(2) src] d that] by simp
  qed
  then show ?thesis using len all assms(3) by auto
qed

lemma chain_acyclic: "acyclic (set (dep_edges [(''A'', [''B'']), (''B'', [''C''])]))"
  by (rule acyclicI_order [where f = "\<lambda>n. if n = ''A'' then 2 else if n = ''B'' then 1 else (0::nat)"])
     (auto simp: dep_edges_def)

theorem startup_order_acyclic_witness:
  "acyclic (set (dep_edges [(''A'', [''B'']), (''B'', [''C''])]))
   \<and> calculate_startup_order [(''A'', [''B'']), (''B'', [''C''])] = [''C'', ''B'', ''A'']
   \<and> length (calculate_startup_order [(''A'', [''B'']), (''B'', [''C''])])
       = length (all_nodes [(''A'', [''B'']), (''B'', [''C''])])
   \<and> index_of (calculate_startup_order [(''A'', [''B'']), (''B'', [''C''])]) ''B''
       < index_of (calculate_startup_order [(''A'', [''B'']), (''B'', [''C''])]) ''A''"
proof -
  let ?d = "[(''A'', [''B'']), (''B'', [''C''])]"
  have v: "calculate_startup_order ?d = [''C'', ''B'', ''A'']"
    by (simp add: calculate_startup_order_def calculate_startup_order_in_def build_reverse_def
     graph_append_def dd_get_def all_nodes_def set_update_def set_add_def)
  have e: "(''A'', ''B'') \<in> set (dep_edges ?d)" by (simp add: dep_edges_def)
  show ?thesis
    using startup_order_acyclic [OF chain_acyclic distinct_all_nodes refl] chain_acyclic v e
    unfolding calculate_startup_order_def [symmetric] by auto
qed


section \<open>Properties of the cycle detector\<close>

fun chain :: "('a \<times> 'a) set \<Rightarrow> 'a list \<Rightarrow> bool" where
  "chain E [] \<longleftrightarrow> True"
| "chain E [x] \<longleftrightarrow> True"
| "chain E (x # y # p) \<longleftrightarrow> (x, y) \<in> E \<and> chain E (y # p)"

lemma chain_snoc:
  "chain E p \<Longrightarrow> p = [] \<or> (last p, x) \<in> E \<Longrightarrow> chain E (p @ [x])"
  by (induction E p rule: chain.induct) auto

lemma chain_dropWhile: "chain E p \<Longrightarrow> chain E (dropWhile P p)"
  by (induction E p rule: chain.induct) auto

lemma chain_reach_last_all: "chain E q \<Longrightarrow> \<forall>y \<in> set q. (y, last q) \<in> E\<^sup>*"
proof (induction E q rule: chain.induct)
  case (3 E x z p)
  then have ih: "\<forall>y \<in> set (z # p). (y, last (z # p)) \<in> E\<^sup>*" and e: "(x, z) \<in> E"
    by simp_all
  have l: "last (x # z # p) = last (z # p)" by simp
  have "(z, last (z # p)) \<in> E\<^sup>*" using ih by simp
  then have "(x, last (z # p)) \<in> E\<^sup>*" using e by (metis converse_rtrancl_into_rtrancl)
  then show ?case unfolding l using ih by auto
qed auto

lemma chain_reach_last: "chain E q \<Longrightarrow> y \<in> set q \<Longrightarrow> (y, last q) \<in> E\<^sup>*"
  using chain_reach_last_all by blast

lemma chain_reach_from_head: "chain E (x # q) \<Longrightarrow> y \<in> set (x # q) \<Longrightarrow> (x, y) \<in> E\<^sup>*"
proof (induction q arbitrary: x)
  case Nil
  then show ?case by simp
next
  case (Cons z q)
  show ?case
  proof (cases "y = x")
    case True
    then show ?thesis by simp
  next
    case False
    then have "(z, y) \<in> E\<^sup>*" using Cons by auto
    then show ?thesis using Cons.prems(1) by (auto intro: converse_rtrancl_into_rtrancl)
  qed
qed

lemma recorded_cycle_is_cycle:
  assumes "chain E p" "node \<in> set p" "(last p, node) \<in> E"
    and "x \<in> set (dropWhile (\<lambda>y. y \<noteq> node) p @ [node])"
  shows "(x, x) \<in> E\<^sup>+"
proof -
  let ?q = "dropWhile (\<lambda>y. y \<noteq> node) p"
  have ne: "?q \<noteq> []" using assms(2) by (simp add: dropWhile_eq_Nil_conv) 
  then have hd: "hd ?q = node" using hd_dropWhile [of "\<lambda>y. y \<noteq> node" p] by simp
  then obtain q' where q: "?q = node # q'" using ne by (cases ?q) auto
  have "p = takeWhile (\<lambda>y. y \<noteq> node) p @ ?q" by simp
  then have last: "last ?q = last p" using ne by (metis last_appendR)
  have ch: "chain E ?q" using assms(1) by (rule chain_dropWhile)
  have x: "x \<in> set ?q" using assms(4) q by auto
  have "(x, last p) \<in> E\<^sup>*" using chain_reach_last [OF ch x] last by simp
  then have "(x, node) \<in> E\<^sup>+" using assms(3) by (rule rtrancl_into_trancl1)
  moreover have "(node, x) \<in> E\<^sup>*" using chain_reach_from_head [of E node q' x] ch x q by simp
  ultimately show ?thesis by (rule trancl_rtrancl_trancl)
qed

definition black :: "dfs_state \<Rightarrow> node set" where
  "black st = visited st - rec_stack st"

definition dfs_inv :: "depmap \<Rightarrow> dfs_state \<Rightarrow> bool" where
  "dfs_inv deps st \<longleftrightarrow>
     set (path st) = rec_stack st \<and> distinct (path st) \<and> rec_stack st \<subseteq> visited st
   \<and> visited st \<subseteq> set (all_nodes deps)
   \<and> chain (set (dep_edges deps)) (path st)
   \<and> (\<forall>c \<in> set (cycles st). 2 \<le> length c \<and> hd c = last c
          \<and> chain (set (dep_edges deps)) c
          \<and> (\<forall>x \<in> set c. (x, x) \<in> (set (dep_edges deps))\<^sup>+))
   \<and> (cycles st = [] \<longrightarrow>
        set (dep_edges deps) `` black st \<subseteq> black st
      \<and> (\<forall>v \<in> black st. (v, v) \<notin> (set (dep_edges deps))\<^sup>+))"

definition dfs_post :: "depmap \<Rightarrow> dfs_state \<Rightarrow> dfs_state \<Rightarrow> bool" where
  "dfs_post deps st st' \<longleftrightarrow>
     dfs_inv deps st' \<and> path st' = path st \<and> rec_stack st' = rec_stack st
   \<and> visited st \<subseteq> visited st' \<and> (cycles st \<noteq> [] \<longrightarrow> cycles st' \<noteq> [])"

lemma dfs_post_refl: "dfs_inv deps st \<Longrightarrow> dfs_post deps st st"
  by (simp add: dfs_post_def)

lemma dfs_post_trans: "dfs_post deps st st1 \<Longrightarrow> dfs_post deps st1 st2 \<Longrightarrow> dfs_post deps st st2"
  by (auto simp: dfs_post_def)

lemma dfs_post_black: "dfs_post deps st st' \<Longrightarrow> black st \<subseteq> black st'"
  by (auto simp: dfs_post_def black_def)

lemma path_length_bound:
  assumes "dfs_inv deps st"
  shows "length (path st) \<le> card (set (all_nodes deps))"
proof -
  have "distinct (path st)" using assms by (simp add: dfs_inv_def)
  then have "length (path st) = card (set (path st))"
    by (simp add: distinct_card)
  also have "\<dots> \<le> card (set (all_nodes deps))"
    using assms by (intro card_mono) (auto simp: dfs_inv_def)
  finally show ?thesis .
qed

lemma closed_reach:
  assumes "E `` B \<subseteq> B" "w \<in> B" "(w, x) \<in> E\<^sup>*"
  shows "x \<in> B"
  using assms(3,2,1) by (induction rule: rtrancl_induct) auto

definition dfs_pre :: "depmap \<Rightarrow> nat \<Rightarrow> node \<Rightarrow> dfs_state \<Rightarrow> bool" where
  "dfs_pre deps depth node st \<longleftrightarrow>
     dfs_inv deps st \<and> node \<in> set (all_nodes deps)
   \<and> (path st = [] \<or> (last (path st), node) \<in> set (dep_edges deps))
   \<and> card (set (all_nodes deps)) < depth + length (path st)"

definition dfs_ok :: "depmap \<Rightarrow> nat \<Rightarrow> bool" where
  "dfs_ok deps depth \<longleftrightarrow>
     (\<forall>node st. dfs_pre deps depth node st \<longrightarrow>
        (\<exists>st'. dfs depth deps node st = Some st' \<and> dfs_post deps st st'
             \<and> (cycles st' = [] \<longrightarrow> node \<in> black st')))"

lemma dfs_neighbors:
  assumes ok: "dfs_ok deps depth"
  shows "dfs_inv deps st \<Longrightarrow> path st \<noteq> [] \<Longrightarrow>
         \<forall>w \<in> set ws. (last (path st), w) \<in> set (dep_edges deps) \<Longrightarrow>
         card (set (all_nodes deps)) < depth + length (path st) \<Longrightarrow>
         \<exists>st'. for_each (dfs depth deps) ws st = Some st' \<and> dfs_post deps st st'
            \<and> (cycles st' = [] \<longrightarrow> set ws \<subseteq> black st')"
proof (induction ws arbitrary: st)
  case Nil
  then show ?case by (simp add: dfs_post_refl)
next
  case (Cons w ws)
  have e: "(last (path st), w) \<in> set (dep_edges deps)" using Cons.prems(3) by simp
  then have "w \<in> set (all_nodes deps)" unfolding set_all_nodes_edges by force
  then have "dfs_pre deps depth w st"
    using Cons.prems e by (simp add: dfs_pre_def)
  with ok obtain st1 where st1: "dfs depth deps w st = Some st1" "dfs_post deps st st1"
    "cycles st1 = [] \<longrightarrow> w \<in> black st1"
    unfolding dfs_ok_def by blast
  have p1: "path st1 = path st" and inv1: "dfs_inv deps st1"
    using st1(2) by (simp_all add: dfs_post_def)
  from Cons.IH [OF inv1] Cons.prems(2,3,4) p1
  obtain st2 where st2: "for_each (dfs depth deps) ws st1 = Some st2" "dfs_post deps st1 st2"
    "cycles st2 = [] \<longrightarrow> set ws \<subseteq> black st2"
    by auto
  have "cycles st2 = [] \<longrightarrow> w \<in> black st2"
    using st1(3) st2(2) dfs_post_black [OF st2(2)] by (auto simp: dfs_post_def)
  then show ?case
    using st1(1) st2(1,3) dfs_post_trans [OF st1(2) st2(2)] by simp
qed

lemma dfs_inv_push:
  assumes inv: "dfs_inv deps st" and fresh: "node \<notin> visited st"
    and n: "node \<in> set (all_nodes deps)"
    and e: "path st = [] \<or> (last (path st), node) \<in> set (dep_edges deps)"
  shows "dfs_inv deps (st\<lparr>visited := insert node (visited st),
                          rec_stack := insert node (rec_stack st),
                          path := path st @ [node]\<rparr>)"
proof -
  let ?st = "st\<lparr>visited := insert node (visited st), rec_stack := insert node (rec_stack st),
                path := path st @ [node]\<rparr>"
  have "node \<notin> rec_stack st" using inv fresh by (auto simp: dfs_inv_def)
  then have b: "black ?st = black st" using fresh by (auto simp: black_def)
  have "chain (set (dep_edges deps)) (path st @ [node])"
    using inv e by (intro chain_snoc) (simp_all add: dfs_inv_def)
  then show ?thesis
    using inv n \<open>node \<notin> rec_stack st\<close> unfolding dfs_inv_def b by auto
qed

lemma dfs_inv_pop:
  assumes keys: "distinct (map fst deps)"
    and inv: "dfs_inv deps st2"
    and p: "path st2 = p0 @ [node]"
    and succ: "cycles st2 = [] \<longrightarrow> set (dd_get deps node) \<subseteq> black st2"
  shows "dfs_inv deps (st2\<lparr>rec_stack := rec_stack st2 - {node}, path := butlast (path st2)\<rparr>)"
    and "node \<in> black (st2\<lparr>rec_stack := rec_stack st2 - {node}, path := butlast (path st2)\<rparr>)"
    and "rec_stack st2 - {node} = set p0"
proof -
  let ?E = "set (dep_edges deps)"
  let ?st = "st2\<lparr>rec_stack := rec_stack st2 - {node}, path := butlast (path st2)\<rparr>"
  have rs: "rec_stack st2 = insert node (set p0)" and d: "distinct (p0 @ [node])"
    and v: "rec_stack st2 \<subseteq> visited st2"
    using inv p by (auto simp: dfs_inv_def)
  then show rs': "rec_stack st2 - {node} = set p0" by auto
  have nb: "node \<notin> black st2" using rs by (simp add: black_def)
  have b: "black ?st = insert node (black st2)"
    using rs v by (auto simp: black_def)
  then show "node \<in> black ?st" by simp
  have ch: "chain ?E p0"
  proof -
    have "chain ?E (p0 @ [node])" using inv p by (simp add: dfs_inv_def)
    then show ?thesis by (induction ?E p0 rule: chain.induct) auto
  qed
  have J: "?E `` black ?st \<subseteq> black ?st \<and> (\<forall>v \<in> black ?st. (v, v) \<notin> ?E\<^sup>+)"
    if c: "cycles st2 = []"
  proof -
    from inv c have closed: "?E `` black st2 \<subseteq> black st2"
      and acyc: "\<forall>v \<in> black st2. (v, v) \<notin> ?E\<^sup>+"
      by (simp_all add: dfs_inv_def)
    have succs: "?E `` {node} \<subseteq> black st2"
      using succ c dd_get_mem [OF keys, of _ node] by auto
    have "(node, node) \<notin> ?E\<^sup>+"
    proof
      assume "(node, node) \<in> ?E\<^sup>+"
      then obtain w where w: "(node, w) \<in> ?E" "(w, node) \<in> ?E\<^sup>*"
        by (meson tranclD)
      then have "w \<in> black st2" using succs by auto
      then have "node \<in> black st2" using closed_reach [OF closed _ w(2)] by simp
      then show False using nb by simp
    qed
    then show ?thesis unfolding b using closed acyc succs by auto
  qed
  show "dfs_inv deps ?st"
    unfolding dfs_inv_def
    using inv p d rs' ch J by (auto simp: dfs_inv_def)
qed

lemma dfs_ok_all:
  assumes keys: "distinct (map fst deps)"
  shows "dfs_ok deps depth"
proof (induction depth)
  case 0
  show ?case
    unfolding dfs_ok_def dfs_pre_def using path_length_bound [of deps] by fastforce
next
  case (Suc depth)
  show ?case
    unfolding dfs_ok_def
  proof (intro allI impI)
    fix node st
    assume pre: "dfs_pre deps (Suc depth) node st"
    then have inv: "dfs_inv deps st" and n: "node \<in> set (all_nodes deps)"
      and e: "path st = [] \<or> (last (path st), node) \<in> set (dep_edges deps)"
      and fuel: "card (set (all_nodes deps)) < Suc depth + length (path st)"
      by (simp_all add: dfs_pre_def)
    let ?E = "set (dep_edges deps)"
    consider (stack) "node \<in> rec_stack st"
      | (seen) "node \<notin> rec_stack st" "node \<in> visited st"
      | (fresh) "node \<notin> rec_stack st" "node \<notin> visited st"
      by blast
    then show "\<exists>st'. dfs (Suc depth) deps node st = Some st' \<and> dfs_post deps st st'
             \<and> (cycles st' = [] \<longrightarrow> node \<in> black st')"
    proof cases
      case stack
      let ?c = "dropWhile (\<lambda>x. x \<noteq> node) (path st) @ [node]"
      let ?st = "st\<lparr>cycles := cycles st @ [?c]\<rparr>"
      have np: "node \<in> set (path st)" using inv stack by (simp add: dfs_inv_def)
      then have wrap: "(last (path st), node) \<in> ?E" using e by auto
      then have cyc: "\<forall>x \<in> set ?c. (x, x) \<in> ?E\<^sup>+"
        using recorded_cycle_is_cycle [of ?E "path st" node] inv np
        by (simp add: dfs_inv_def)
      have ne: "dropWhile (\<lambda>x. x \<noteq> node) (path st) \<noteq> []"
        using np by (simp add: dropWhile_eq_Nil_conv)
      have "path st = takeWhile (\<lambda>x. x \<noteq> node) (path st) @ dropWhile (\<lambda>x. x \<noteq> node) (path st)"
        by simp
      then have "last (dropWhile (\<lambda>x. x \<noteq> node) (path st)) = last (path st)"
        using ne by (metis last_appendR)
      moreover have "chain ?E (dropWhile (\<lambda>x. x \<noteq> node) (path st))"
        using inv by (intro chain_dropWhile) (simp add: dfs_inv_def)
      ultimately have walk: "chain ?E ?c"
        using wrap by (intro chain_snoc) simp_all
      from ne have "hd (dropWhile (\<lambda>x. x \<noteq> node) (path st)) = node"
        using hd_dropWhile [of "\<lambda>x. x \<noteq> node" "path st"] by simp
      then have shape: "2 \<le> length ?c \<and> hd ?c = last ?c"
        using ne by (cases "dropWhile (\<lambda>x. x \<noteq> node) (path st)") auto
      have "dfs_inv deps ?st"
        using inv cyc shape walk unfolding dfs_inv_def by (simp add: black_def)
      then have "dfs_post deps st ?st" by (simp add: dfs_post_def)
      then show ?thesis using stack by simp
    next
      case seen
      then have "node \<in> black st" by (simp add: black_def)
      then show ?thesis using seen inv by (simp add: dfs_post_refl)
    next
      case fresh
      let ?st1 = "st\<lparr>visited := insert node (visited st), rec_stack := insert node (rec_stack st),
                path := path st @ [node]\<rparr>"
      have inv1: "dfs_inv deps ?st1" using dfs_inv_push [OF inv fresh(2) n e] .
      have ws: "\<forall>w \<in> set (dd_get deps node). (last (path ?st1), w) \<in> ?E"
        using dd_get_mem [OF keys, of _ node] by simp
      from dfs_neighbors [OF Suc inv1 _ ws] fuel
      obtain st2 where st2: "for_each (dfs depth deps) (dd_get deps node) ?st1 = Some st2"
        "dfs_post deps ?st1 st2" "cycles st2 = [] \<longrightarrow> set (dd_get deps node) \<subseteq> black st2"
        by auto
      let ?st' = "st2\<lparr>rec_stack := rec_stack st2 - {node}, path := butlast (path st2)\<rparr>"
      have inv2: "dfs_inv deps st2" and p2: "path st2 = path st @ [node]"
        and v2: "insert node (visited st) \<subseteq> visited st2"
        and c2: "cycles st \<noteq> [] \<longrightarrow> cycles st2 \<noteq> []"
        using st2(2) by (simp_all add: dfs_post_def)
      note pop = dfs_inv_pop [OF keys inv2 p2 st2(3)]
      have "set (path st) = rec_stack st" using inv by (simp add: dfs_inv_def)
      then have "dfs_post deps st ?st'"
        unfolding dfs_post_def using pop(1,3) p2 v2 c2 by simp
      moreover have "dfs (Suc depth) deps node st = Some ?st'"
        using fresh st2(1) by simp
      ultimately show ?thesis using pop(2) by blast
    qed
  qed
qed

lemma detect_loop:
  assumes keys: "distinct (map fst deps)"
  shows "dfs_inv deps st \<Longrightarrow> path st = [] \<Longrightarrow> set ks \<subseteq> set (all_nodes deps) \<Longrightarrow>
     \<exists>st'. for_each (\<lambda>node st. if node \<notin> visited st
                             then dfs (Suc (length (all_nodes deps))) deps node st
                             else Some st) ks st = Some st'
          \<and> dfs_post deps st st' \<and> (cycles st' = [] \<longrightarrow> set ks \<subseteq> black st')"
proof (induction ks arbitrary: st)
  case Nil
  then show ?case by (simp add: dfs_post_refl)
next
  case (Cons k ks)
  let ?body = "\<lambda>node st. if node \<notin> visited st
                             then dfs (Suc (length (all_nodes deps))) deps node st
                             else Some st"
  have "\<exists>st1. ?body k st = Some st1 \<and> dfs_post deps st st1
           \<and> (cycles st1 = [] \<longrightarrow> k \<in> black st1)"
  proof (cases "k \<in> visited st")
    case True
    have "rec_stack st = {}" using Cons.prems(1,2) by (simp add: dfs_inv_def)
    then have "k \<in> black st" using True by (simp add: black_def)
    then show ?thesis using True Cons.prems(1) by (simp add: dfs_post_refl)
  next
    case False
    have "card (set (all_nodes deps)) \<le> length (all_nodes deps)" by (rule card_length)
    then have "dfs_pre deps (Suc (length (all_nodes deps))) k st"
      using Cons.prems by (simp add: dfs_pre_def)
    then show ?thesis
      using dfs_ok_all [OF keys, of "Suc (length (all_nodes deps))"] False
      unfolding dfs_ok_def by auto
  qed
  then obtain st1 where st1: "?body k st = Some st1" "dfs_post deps st st1"
    "cycles st1 = [] \<longrightarrow> k \<in> black st1"
    by blast
  have inv1: "dfs_inv deps st1" and p1: "path st1 = []"
    using st1(2) Cons.prems(2) by (simp_all add: dfs_post_def)
  from Cons.IH [OF inv1 p1] Cons.prems(3)
  obtain st2 where st2: "for_each ?body ks st1 = Some st2" "dfs_post deps st1 st2"
    "cycles st2 = [] \<longrightarrow> set ks \<subseteq> black st2"
    by auto
  have "cycles st2 = [] \<longrightarrow> k \<in> black st2"
    using st1(3) st2(2) dfs_post_black [OF st2(2)] by (auto simp: dfs_post_def)
  then show ?case
    using st1(1) st2(1,3) dfs_post_trans [OF st1(2) st2(2)] by simp
qed

lemma detect_cycles_spec:
  assumes keys: "distinct (map fst deps)"
  shows "\<exists>cs. detect_cycles deps = Some cs
        \<and> (\<forall>c \<in> set cs. 2 \<le> length c \<and> hd c = last c
              \<and> chain (set (dep_edges deps)) c
              \<and> (\<forall>x \<in> set c. (x, x) \<in> (set (dep_edges deps))\<^sup>+))
        \<and> (cs = [] \<longleftrightarrow> acyclic (set (dep_edges deps)))"
proof -
  let ?E = "set (dep_edges deps)"
  let ?st0 = "\<lparr>cycles = [], visited = {}, rec_stack = {}, path = []\<rparr>"
  have inv0: "dfs_inv deps ?st0" by (simp add: dfs_inv_def black_def)
  have ks: "set (map fst deps) \<subseteq> set (all_nodes deps)"
    unfolding set_all_nodes by auto
  from detect_loop [OF keys inv0 _ ks]
  obtain st' where st': "for_each (\<lambda>node st. if node \<notin> visited st
                             then dfs (Suc (length (all_nodes deps))) deps node st
                             else Some st) (map fst deps) ?st0 = Some st'"
    "dfs_post deps ?st0 st'" "cycles st' = [] \<longrightarrow> set (map fst deps) \<subseteq> black st'"
    by auto
  have res: "detect_cycles deps = Some (cycles st')"
    using st'(1) by (simp add: detect_cycles_def)
  have inv: "dfs_inv deps st'" using st'(2) by (simp add: dfs_post_def)
  then have good: "\<forall>c \<in> set (cycles st'). 2 \<le> length c \<and> hd c = last c
      \<and> chain ?E c \<and> (\<forall>x \<in> set c. (x, x) \<in> ?E\<^sup>+)"
    by (simp add: dfs_inv_def)
  have "acyclic ?E" if c: "cycles st' = []"
  proof (rule acyclicI, intro allI notI)
    fix x assume x: "(x, x) \<in> ?E\<^sup>+"
    then obtain w where "(x, w) \<in> ?E" by (meson tranclD)
    then have "x \<in> set (map fst deps)" by (auto simp: set_dep_edges intro: rev_image_eqI)
    then have "x \<in> black st'" using st'(3) c by auto
    then show False using inv c x by (simp add: dfs_inv_def)
  qed
  moreover have "cycles st' = []" if a: "acyclic ?E"
  proof (rule ccontr)
    assume "cycles st' \<noteq> []"
    then have "hd (cycles st') \<in> set (cycles st')" by simp
    with good have "2 \<le> length (hd (cycles st'))"
      and c2: "\<forall>x \<in> set (hd (cycles st')). (x, x) \<in> ?E\<^sup>+" by auto
    then have c1: "hd (cycles st') \<noteq> []" by auto
    note c = c1 c2
    from c(1) have "hd (hd (cycles st')) \<in> set (hd (cycles st'))" by simp
    with c(2) have "(hd (hd (cycles st')), hd (hd (cycles st'))) \<in> ?E\<^sup>+" by blast
    then show False using a by (simp add: acyclic_def)
  qed
  ultimately show ?thesis using res good by blast
qed

section \<open>Properties of the phase planner\<close>

lemma set_cycle_containers:
  "set (fold (\<lambda>cycle acc. set_update acc cycle) cs acc) = set acc \<union> \<Union> (set ` set cs)"
  by (induction cs arbitrary: acc) auto

lemma distinct_cycle_containers:
  "distinct acc \<Longrightarrow> distinct (fold (\<lambda>cycle acc. set_update acc cycle) cs acc)"
  by (induction cs arbitrary: acc) auto

lemma level_append_groups:
  "distinct (map fst L) \<Longrightarrow>
   mset (concat (map snd (AList.update k (dd_get L k @ [x]) L)))
     = add_mset x (mset (concat (map snd L)))"
proof (induction L)
  case Nil
  then show ?case by (simp add: dd_get_def)
next
  case (Cons p L)
  obtain k' v' where p: "p = (k', v')" by (cases p)
  show ?case
  proof (cases "k' = k")
    case True
    then show ?thesis by (simp add: p dd_get_def)
  next
    case False
    then have "dd_get (p # L) k = dd_get L k" by (simp add: p dd_get_def)
    then show ?thesis using Cons False by (simp add: p)
  qed
qed

lemma assign_levels_groups:
  "distinct (map fst (fst (assign_levels cdeps order)))
   \<and> mset (concat (map snd (fst (assign_levels cdeps order)))) = mset order"
proof -
  have "distinct (map fst (fst st)) \<Longrightarrow>
        distinct (map fst (fst (fold (level_step cdeps) order st)))
      \<and> mset (concat (map snd (fst (fold (level_step cdeps) order st))))
          = mset (concat (map snd (fst st))) + mset order" for st
  proof (induction order arbitrary: st)
    case Nil
    then show ?case by simp
  next
    case (Cons n order)
    obtain L P where st: "st = (L, P)" by (cases st)
    let ?L = "AList.update (node_level cdeps L P n) (dd_get L (node_level cdeps L P n) @ [n]) L"
    have d: "distinct (map fst L)" using Cons.prems by (simp add: st)
    have s: "level_step cdeps n st = (?L, insert n P)" by (simp add: st level_step_def Let_def)
    have d': "distinct (map fst (fst (?L, insert n P)))"
      using d by (simp add: distinct_update)
    have m: "mset (concat (map snd ?L)) = add_mset n (mset (concat (map snd L)))"
      using level_append_groups [OF d] .
    have f: "fold (level_step cdeps) (n # order) st = fold (level_step cdeps) order (?L, insert n P)"
      by (simp add: s)
    show ?case
      unfolding f using Cons.IH [OF d'] m by (simp add: st)
  qed
  from this [of "([], {})"] show ?thesis by (simp add: assign_levels_def)
qed

lemma dd_get_keys:
  assumes "distinct (map fst L)"
  shows "map (dd_get L) (map fst L) = map snd L"
proof -
  have "dd_get L (fst p) = snd p" if "p \<in> set L" for p
    using map_of_is_SomeI [OF assms, of "fst p" "snd p"] that by (simp add: dd_get_def)
  then show ?thesis by simp
qed

lemma groups_by_sorted_keys:
  assumes "distinct (map fst L)"
  shows "mset (concat (map (dd_get L) (sort (map fst L)))) = mset (concat (map snd L))"
proof -
  have "mset (concat (map (dd_get L) ks)) = (\<Sum>k\<in>#mset ks. mset (dd_get L k))" for ks
    by (induction ks) simp_all
  from this [of "sort (map fst L)"] this [of "map fst L"]
  have "mset (concat (map (dd_get L) (sort (map fst L))))
      = mset (concat (map (dd_get L) (map fst L)))"
    by simp
  then show ?thesis unfolding dd_get_keys [OF assms] .
qed

lemma level_phases_containers:
  "mset (concat (map containers
      (map (level_phase (fst (assign_levels cdeps order)))
           (sort (map fst (fst (assign_levels cdeps order))))))) = mset order"
proof -
  let ?L = "fst (assign_levels cdeps order)"
  have "map containers (map (level_phase ?L) (sort (map fst ?L)))
      = map (dd_get ?L) (sort (map fst ?L))"
    by (simp add: level_phase_def comp_def)
  then show ?thesis
    using groups_by_sorted_keys [of ?L] assign_levels_groups [of cdeps order] by metis
qed

lemma all_dependencies_keys: "distinct (map fst (all_dependencies m))"
  using all_dependencies_props(1) [of m] by (simp add: wf_deps_def)

lemma build_dependency_graph_in_total:
  "\<exists>cs. detect_cycles (all_dependencies m) = Some cs
      \<and> build_dependency_graph_in ns m =
          Some \<lparr>dg_nodes = all_nodes (all_dependencies m),
                dg_edges = graph_edges (all_dependencies m),
                dg_cycles = cs,
                dg_startup_order = calculate_startup_order_in ns (all_dependencies m)\<rparr>"
  using detect_cycles_spec [OF all_dependencies_keys, of m]
  by (auto simp: build_dependency_graph_in_def Let_def)

definition fallback_phase :: "mapper \<Rightarrow> phase" where
  "fallback_phase m =
     \<lparr>name = ''Phase 1'', containers = inventory m, parallel = False,
      description = [], special = False, phase_cycles = []\<rparr>"

lemma phases_generate:
  "phases (generate_migration_sequence m g) =
     (if dg_cycles g \<noteq> [] \<and> fold (\<lambda>cycle acc. set_update acc cycle) (dg_cycles g) [] \<noteq> []
      then [cycle_phase (dg_cycles g)] else [])
     @ (if dg_startup_order g = [] then [fallback_phase m]
        else map (level_phase (fst (assign_levels (container_dependencies m) (dg_startup_order g))))
               (sort (map fst (fst (assign_levels (container_dependencies m) (dg_startup_order g))))))"
  by (simp add: generate_migration_sequence_def Let_def fallback_phase_def)

lemma cycle_containers_nonempty:
  assumes "cs \<noteq> []" "\<forall>c \<in> set cs. 2 \<le> length c"
  shows "fold (\<lambda>cycle acc. set_update acc cycle) cs [] \<noteq> []"
proof -
  have "hd cs \<in> set cs" using assms(1) by simp
  then have "hd cs \<noteq> []" using assms(2) by fastforce
  then have "hd (hd cs) \<in> set (hd cs)" by simp
  then have "hd (hd cs) \<in> \<Union> (set ` set cs)" using \<open>hd cs \<in> set cs\<close> by blast
  then have "hd (hd cs) \<in> set (fold (\<lambda>cycle acc. set_update acc cycle) cs [])"
    by (simp add: set_cycle_containers)
  then show ?thesis by auto
qed

text \<open>
  Claim C5, amended. The graph stage always returns. Whenever any cycle was detected
  the first phase is the dedicated one: marked special, not parallel, holding exactly the
  nodes that occur in some detected cycle, each once; no other phase is special, and without
  a detected cycle no phase is. Whenever the startup order is not empty the phases
  partition the handled nodes: every node of the startup order and every node of a detected
  cycle occurs in exactly one phase, once, and nothing else occurs in a phase. With an
  empty startup order and no detected cycle the only phase is the fallback one, which
  lists the inventory (the keys of a dictionary, so each container once).
\<close>

theorem phases_partition_and_cycle_phase:
  assumes "distinct ns" "set ns = set (all_nodes (all_dependencies m))"
  shows "\<exists>g. build_dependency_graph_in ns m = Some g \<and>
      (let ps = phases (generate_migration_sequence m g);
           cyclic = \<Union> (set ` set (dg_cycles g))
       in (dg_cycles g \<noteq> [] \<longrightarrow>
             ps \<noteq> [] \<and> special (hd ps) \<and> \<not> parallel (hd ps)
           \<and> set (containers (hd ps)) = cyclic \<and> distinct (containers (hd ps))
           \<and> (\<forall>p \<in> set (tl ps). \<not> special p))
        \<and> (dg_cycles g = [] \<longrightarrow> (\<forall>p \<in> set ps. \<not> special p))
        \<and> (dg_startup_order g \<noteq> [] \<longrightarrow>
             distinct (concat (map containers ps))
           \<and> set (concat (map containers ps)) = set (dg_startup_order g) \<union> cyclic)
        \<and> (dg_startup_order g = [] \<and> dg_cycles g = [] \<longrightarrow>
             map containers ps = [inventory m]))"
proof -
  let ?deps = "all_dependencies m"
  let ?E = "set (dep_edges ?deps)"
  from detect_cycles_spec [OF all_dependencies_keys, of m]
  obtain cs where cs: "detect_cycles ?deps = Some cs"
    and good: "\<forall>c \<in> set cs. 2 \<le> length c \<and> hd c = last c \<and> (\<forall>x \<in> set c. (x, x) \<in> ?E\<^sup>+)"
    by blast
  define order where "order = calculate_startup_order_in ns ?deps"
  define g where "g = \<lparr>dg_nodes = all_nodes ?deps, dg_edges = graph_edges ?deps,
                dg_cycles = cs, dg_startup_order = order\<rparr>"
  have b: "build_dependency_graph_in ns m = Some g"
    using cs by (simp add: build_dependency_graph_in_def Let_def g_def order_def)
  define L where "L = fst (assign_levels (container_dependencies m) order)"
  define lps where "lps = map (level_phase L) (sort (map fst L))"
  define cc where "cc = fold (\<lambda>cycle acc. set_update acc cycle) cs []"
  define ps where "ps = phases (generate_migration_sequence m g)"
  have ps: "ps = (if cs \<noteq> [] \<and> cc \<noteq> [] then [cycle_phase cs] else [])
                 @ (if order = [] then [fallback_phase m] else lps)"
    unfolding ps_def phases_generate by (simp add: g_def cc_def lps_def L_def)
  have cc_set: "set cc = \<Union> (set ` set cs)" and cc_dist: "distinct cc"
    unfolding cc_def by (simp_all add: set_cycle_containers distinct_cycle_containers)
  have cc_ne: "cc \<noteq> []" if "cs \<noteq> []"
    unfolding cc_def using that good by (intro cycle_containers_nonempty) auto
  have plain: "\<forall>p \<in> set (if order = [] then [fallback_phase m] else lps). \<not> special p"
    by (auto simp: fallback_phase_def lps_def level_phase_def)
  have c1: "ps \<noteq> [] \<and> special (hd ps) \<and> \<not> parallel (hd ps)
           \<and> set (containers (hd ps)) = \<Union> (set ` set cs) \<and> distinct (containers (hd ps))
           \<and> (\<forall>p \<in> set (tl ps). \<not> special p)" if "cs \<noteq> []"
  proof -
    have "ps = cycle_phase cs # (if order = [] then [fallback_phase m] else lps)"
      using that cc_ne ps by simp
    then show ?thesis
      using plain cc_set cc_dist by (simp add: cycle_phase_def cc_def)
  qed
  have c2: "\<forall>p \<in> set ps. \<not> special p" if "cs = []"
    using that ps plain by simp
  have c3: "distinct (concat (map containers ps))
         \<and> set (concat (map containers ps)) = set order \<union> \<Union> (set ` set cs)" if ne: "order \<noteq> []"
  proof -
    have src: "fst ` ?E \<subseteq> set ns"
      unfolding assms(2) set_all_nodes_edges by (force simp: set_dep_edges)
    have od: "distinct order"
      unfolding order_def using startup_order_props(1) [OF assms(1) src] .
    have m: "mset (concat (map containers lps)) = mset order"
      unfolding lps_def L_def by (rule level_phases_containers)
    have ld: "distinct (concat (map containers lps))"
      using od mset_eq_imp_distinct_iff [OF m] by simp
    have ls: "set (concat (map containers lps)) = set order"
      using mset_eq_setD [OF m] by simp
    have disj: "set cc \<inter> set order = {}"
    proof -
      have "x \<notin> set order" if "x \<in> set cc" for x
      proof -
        from that have "(x, x) \<in> ?E\<^sup>+" using cc_set good by auto
        then show ?thesis
          unfolding order_def using cyclic_node_not_ordered [OF assms(1) src] by blast
      qed
      then show ?thesis by auto
    qed
    show ?thesis
    proof (cases "cs = []")
      case True
      then show ?thesis using ps ne ld ls by simp
    next
      case False
      then have "concat (map containers ps) = cc @ concat (map containers lps)"
        using ps ne cc_ne by (simp add: cycle_phase_def cc_def)
      then show ?thesis using ld ls cc_dist cc_set disj by auto
    qed
  qed
  have c4: "map containers ps = [inventory m]" if "order = []" "cs = []"
    using that ps by (simp add: fallback_phase_def)
  have sel: "dg_cycles g = cs" "dg_startup_order g = order" by (simp_all add: g_def)
  have A: "cs \<noteq> [] \<longrightarrow>
             ps \<noteq> [] \<and> special (hd ps) \<and> \<not> parallel (hd ps)
           \<and> set (containers (hd ps)) = \<Union> (set ` set cs) \<and> distinct (containers (hd ps))
           \<and> (\<forall>p \<in> set (tl ps). \<not> special p)"
    by (rule impI) (rule c1)
  have B: "cs = [] \<longrightarrow> (\<forall>p \<in> set ps. \<not> special p)"
    by (rule impI) (rule c2)
  have C: "order \<noteq> [] \<longrightarrow>
             distinct (concat (map containers ps))
           \<and> set (concat (map containers ps)) = set order \<union> \<Union> (set ` set cs)"
    by (rule impI) (rule c3)
  have D: "order = [] \<and> cs = [] \<longrightarrow> map containers ps = [inventory m]"
    using c4 by simp
  from b A B C D
  have "build_dependency_graph_in ns m = Some g \<and>
      (let ps = phases (generate_migration_sequence m g);
           cyclic = \<Union> (set ` set (dg_cycles g))
       in (dg_cycles g \<noteq> [] \<longrightarrow>
             ps \<noteq> [] \<and> special (hd ps) \<and> \<not> parallel (hd ps)
           \<and> set (containers (hd ps)) = cyclic \<and> distinct (containers (hd ps))
           \<and> (\<forall>p \<in> set (tl ps). \<not> special p))
        \<and> (dg_cycles g = [] \<longrightarrow> (\<forall>p \<in> set ps. \<not> special p))
        \<and> (dg_startup_order g \<noteq> [] \<longrightarrow>
             distinct (concat (map containers ps))
           \<and> set (concat (map containers ps)) = set (dg_startup_order g) \<union> cyclic)
        \<and> (dg_startup_order g = [] \<and> dg_cycles g = [] \<longrightarrow>
             map containers ps = [inventory m]))"
    unfolding Let_def sel ps_def by (intro conjI)
  then show ?thesis by (intro exI [of _ g])
qed

lemmas graph_stage_defs =
  run_graph_stages_def build_dependency_graph_def build_dependency_graph_in_def
  generate_migration_sequence_def detect_cycles_def calculate_startup_order_in_def
  build_reverse_def graph_append_def all_dependencies_def mapper_of_facts_def record_facts_def
  add_fact_def dd_update_all_def dd_get_def set_update_def set_add_def all_nodes_def
  graph_edges_def assign_levels_def level_step_def node_level_def level_phase_def
  level_group_def cycle_phase_def digit_def Let_def

text \<open>
  Claim C4. For every dependency graph that contains a cycle, the cycle detector returns
  a nonempty list, and every entry of it is a cycle of the graph: a sequence of at least
  two nodes that ends where it starts, each node followed by one of its dependencies, so
  that every node in it lies on a cycle. The startup order is strictly shorter than the
  number of nodes: no node on a cycle and no node that depends, directly or not, on a
  node on a cycle is ever appended to it.
\<close>

theorem cyclic_graph_detected:
  assumes "distinct (map fst dependencies)"
    and "\<not> acyclic (set (dep_edges dependencies))"
    and "distinct ns" "set ns = set (all_nodes dependencies)"
  shows "(\<exists>cs. detect_cycles dependencies = Some cs \<and> cs \<noteq> []
            \<and> (\<forall>c \<in> set cs. 2 \<le> length c \<and> hd c = last c
                  \<and> chain (set (dep_edges dependencies)) c
                  \<and> (\<forall>x \<in> set c. (x, x) \<in> (set (dep_edges dependencies))\<^sup>+)))
     \<and> length (calculate_startup_order_in ns dependencies) < length (all_nodes dependencies)
     \<and> (\<forall>x y. (x, x) \<in> (set (dep_edges dependencies))\<^sup>+
              \<and> (y, x) \<in> (set (dep_edges dependencies))\<^sup>*
            \<longrightarrow> y \<notin> set (calculate_startup_order_in ns dependencies))"
proof -
  let ?E = "set (dep_edges dependencies)"
  let ?r = "calculate_startup_order_in ns dependencies"
  have src: "fst ` ?E \<subseteq> set ns"
    unfolding assms(4) set_all_nodes_edges by (force simp: set_dep_edges)
  note props = startup_order_props [OF assms(3) src]
  have cyc: "x \<notin> set ?r" if "(x, x) \<in> ?E\<^sup>+" for x
    using cyclic_node_not_ordered [OF assms(3) src that] .
  have dep: "y \<notin> set ?r" if "(x, x) \<in> ?E\<^sup>+" "(y, x) \<in> ?E\<^sup>*" for x y
  proof
    assume y: "y \<in> set ?r"
    from that(2) have "y = x \<or> (y, x) \<in> ?E\<^sup>+" by (auto simp: rtrancl_eq_or_trancl)
    then have "x \<in> set ?r"
      using y targets_first_path [OF props(3,1)] by blast
    then show False using cyc [OF that(1)] by simp
  qed
  from assms(2) obtain x where x: "(x, x) \<in> ?E\<^sup>+" by (auto simp: acyclic_def)
  then obtain w where "(x, w) \<in> ?E" by (meson tranclD)
  then have "x \<in> set ns" using src by force
  then have "set ?r \<subset> set ns" using props(2) cyc [OF x] by blast
  then have "card (set ?r) < card (set ns)" by (intro psubset_card_mono) simp_all
  then have "length ?r < length ns"
    using props(1) assms(3) by (simp add: distinct_card)
  moreover have "length ns = length (all_nodes dependencies)"
    using assms(3,4) distinct_all_nodes [of dependencies] by (metis distinct_card)
  ultimately have shorter: "length ?r < length (all_nodes dependencies)" by simp
  have found: "\<exists>cs. detect_cycles dependencies = Some cs \<and> cs \<noteq> []
            \<and> (\<forall>c \<in> set cs. 2 \<le> length c \<and> hd c = last c \<and> chain ?E c
                  \<and> (\<forall>x \<in> set c. (x, x) \<in> ?E\<^sup>+))"
    using detect_cycles_spec [OF assms(1)] assms(2) by blast
  have never: "\<forall>x y. (x, x) \<in> ?E\<^sup>+ \<and> (y, x) \<in> ?E\<^sup>* \<longrightarrow> y \<notin> set ?r"
    using dep by blast
  from found shorter never show ?thesis by (intro conjI)
qed

lemma two_cycle_cyclic: "\<not> acyclic (set (dep_edges [(''X'', [''Y'']), (''Y'', [''X''])]))"
proof -
  have "(''X'', ''Y'') \<in> set (dep_edges [(''X'', [''Y'']), (''Y'', [''X''])])"
       "(''Y'', ''X'') \<in> set (dep_edges [(''X'', [''Y'']), (''Y'', [''X''])])"
    by (simp_all add: dep_edges_def)
  then have "(''X'', ''X'') \<in> (set (dep_edges [(''X'', [''Y'']), (''Y'', [''X''])]))\<^sup>+"
    by (meson trancl.simps)
  then show ?thesis by (auto simp: acyclic_def)
qed

theorem cyclic_graph_detected_witness:
  "distinct (map fst [(''X'', [''Y'']), (''Y'', [''X''])])
   \<and> \<not> acyclic (set (dep_edges [(''X'', [''Y'']), (''Y'', [''X''])]))
   \<and> (\<exists>cs. detect_cycles [(''X'', [''Y'']), (''Y'', [''X''])] = Some cs \<and> cs \<noteq> []
          \<and> (\<forall>c \<in> set cs. 2 \<le> length c \<and> hd c = last c
                \<and> chain (set (dep_edges [(''X'', [''Y'']), (''Y'', [''X''])])) c))
   \<and> length (calculate_startup_order [(''X'', [''Y'']), (''Y'', [''X''])])
       < length (all_nodes [(''X'', [''Y'']), (''Y'', [''X''])])"
proof -
  have k: "distinct (map fst [(''X'', [''Y'']), (''Y'', [''X''])])" by simp
  show ?thesis
    using cyclic_graph_detected [OF k two_cycle_cyclic distinct_all_nodes refl] k two_cycle_cyclic
    unfolding calculate_startup_order_def by blast
qed

text \<open>
  Claim C2 at the two-node graph \<open>X \<rightarrow> Y\<close>, \<open>Y \<rightarrow> X\<close>: the detector stores the
  path slice followed by the starting node again, \<open>[X, Y, X]\<close> (or \<open>[Y, X, Y]\<close> from
  the other start), where the claim has \<open>[X, Y]\<close>.
\<close>

theorem two_node_cycle_repeats_start:
  "detect_cycles [(''X'', [''Y'']), (''Y'', [''X''])] = Some [[''X'', ''Y'', ''X'']]
   \<and> detect_cycles [(''Y'', [''X'']), (''X'', [''Y''])] = Some [[''Y'', ''X'', ''Y'']]"
  by (simp add: detect_cycles_def all_nodes_def set_update_def set_add_def dd_get_def)

text \<open>
  Claim C3 at one compose fact, \<open>web\<close> depends on \<open>db\<close>: the edge is in the graph,
  there is no cycle, and both nodes are placed at level 0, in one parallel phase whose group
  record reads "No interdependencies within group". The level loop consults
  \<open>self.container_dependencies\<close> only.
\<close>

theorem compose_edge_same_level:
  "\<exists>g ms. run_graph_stages (mapper_of_facts [] [] [] [] [(''web'', ''db'')]) = Some (g, ms)
     \<and> dg_edges g = [\<lparr>e_from = ''web'', e_to = ''db'', e_type = ''depends_on''\<rparr>]
     \<and> dg_cycles g = []
     \<and> dg_startup_order g = [''db'', ''web'']
     \<and> phases ms = [\<lparr>name = ''Phase 1'', containers = [''db'', ''web''], parallel = True,
                       description = ''Migrate containers with dependency level 0'',
                       special = False, phase_cycles = []\<rparr>]
     \<and> parallel_groups ms = [\<lparr>pg_phase = 1, pg_containers = [''db'', ''web''],
                                pg_reason = ''No interdependencies within group''\<rparr>]"
  by (simp add: graph_stage_defs str_nat.simps)

text \<open>
  Claim C9 at the empty mapper: the graph, the cycle list and the startup order are
  empty and nothing fails, but the migration sequence holds one phase, "Phase 1", with
  no container: the empty startup order takes the fallback branch written for cycles.
\<close>

theorem empty_input_one_phase:
  "\<exists>ms. run_graph_stages \<lparr>inventory = [], container_dependencies = [],
            network_dependencies = [], volume_dependencies = [], compose_dependencies = []\<rparr>
        = Some (\<lparr>dg_nodes = [], dg_edges = [], dg_cycles = [], dg_startup_order = []\<rparr>, ms)
     \<and> phases ms = [\<lparr>name = ''Phase 1'', containers = [], parallel = False,
                       description = [], special = False, phase_cycles = []\<rparr>]
     \<and> parallel_groups ms = [] \<and> sequential_order ms = [] \<and> total_phases ms = 1"
  by (simp add: graph_stage_defs)

text \<open>
  Claim C5, as stated, fails: two inventoried containers that share a network depend on
  each other, the startup order is empty, and both appear in the cycle phase and again in
  the fallback phase.
\<close>

theorem cycle_members_in_two_phases_counterexample:
  "\<exists>g ms. run_graph_stages (mapper_of_facts [''X'', ''Y''] [] [(''X'', ''Y''), (''Y'', ''X'')] [] [])
             = Some (g, ms)
     \<and> dg_startup_order g = []
     \<and> map containers (phases ms) = [[''X'', ''Y''], [''X'', ''Y'']]
     \<and> \<not> distinct (concat (map containers (phases ms)))"
  by (simp add: graph_stage_defs)

theorem phases_partition_and_cycle_phase_witness:
  "distinct (all_nodes (all_dependencies
      (mapper_of_facts [''a'', ''b'', ''c''] [(''c'', ''d'')] [(''a'', ''b''), (''b'', ''a'')] [] [])))
   \<and> (\<exists>g. build_dependency_graph
        (mapper_of_facts [''a'', ''b'', ''c''] [(''c'', ''d'')] [(''a'', ''b''), (''b'', ''a'')] [] [])
          = Some g
      \<and> dg_cycles g \<noteq> [] \<and> dg_startup_order g \<noteq> []
      \<and> distinct (concat (map containers (phases (generate_migration_sequence
          (mapper_of_facts [''a'', ''b'', ''c''] [(''c'', ''d'')] [(''a'', ''b''), (''b'', ''a'')] [] []) g))))
      \<and> special (hd (phases (generate_migration_sequence
          (mapper_of_facts [''a'', ''b'', ''c''] [(''c'', ''d'')] [(''a'', ''b''), (''b'', ''a'')] [] []) g))))"
proof -
  let ?m = "mapper_of_facts [''a'', ''b'', ''c''] [(''c'', ''d'')] [(''a'', ''b''), (''b'', ''a'')] [] []"
  have d: "distinct (all_nodes (all_dependencies ?m))" by (rule distinct_all_nodes)
  from phases_partition_and_cycle_phase [OF d refl]
  obtain g where g: "build_dependency_graph ?m = Some g"
    and p: "let ps = phases (generate_migration_sequence ?m g);
           cyclic = \<Union> (set ` set (dg_cycles g))
       in (dg_cycles g \<noteq> [] \<longrightarrow>
             ps \<noteq> [] \<and> special (hd ps) \<and> \<not> parallel (hd ps)
           \<and> set (containers (hd ps)) = cyclic \<and> distinct (containers (hd ps))
           \<and> (\<forall>p \<in> set (tl ps). \<not> special p))
        \<and> (dg_cycles g = [] \<longrightarrow> (\<forall>p \<in> set ps. \<not> special p))
        \<and> (dg_startup_order g \<noteq> [] \<longrightarrow>
             distinct (concat (map containers ps))
           \<and> set (concat (map containers ps)) = set (dg_startup_order g) \<union> cyclic)
        \<and> (dg_startup_order g = [] \<and> dg_cycles g = [] \<longrightarrow>
             map containers ps = [inventory ?m])"
    unfolding build_dependency_graph_def by blast
  have v: "build_dependency_graph ?m = Some
      \<lparr>dg_nodes = [''c'', ''a'', ''b'', ''d''],
       dg_edges = [\<lparr>e_from = ''c'', e_to = ''d'', e_type = ''depends_on''\<rparr>,
                   \<lparr>e_from = ''a'', e_to = ''b'', e_type = ''depends_on''\<rparr>,
                   \<lparr>e_from = ''b'', e_to = ''a'', e_type = ''depends_on''\<rparr>],
       dg_cycles = [[''a'', ''b'', ''a'']], dg_startup_order = [''d'', ''c'']\<rparr>"
    by (simp add: graph_stage_defs)
  with g have "dg_cycles g \<noteq> []" "dg_startup_order g \<noteq> []" by auto
  with p g d show ?thesis unfolding Let_def by blast
qed


section \<open>Properties of the graph builder\<close>

text \<open>
  Claim C6. For every list of relationship facts (of the container, network, volume and
  compose families), \<open>build_dependency_graph\<close> returns a graph whose node list
  enumerates, without repetition, exactly the identifiers that occur as a source or a
  target of some fact; whose edge list holds exactly one edge per distinct ordered
  (source, target) pair, whatever the number of families that produced the pair; and in
  which every endpoint of every edge is a node.
\<close>

theorem build_graph_nodes_edges:
  fixes cf nf vf pf :: "(node \<times> node) list"
  shows "\<exists>g. build_dependency_graph (mapper_of_facts inv0 cf nf vf pf) = Some g
         \<and> (let facts = set (cf @ nf @ vf @ pf)
            in set (dg_nodes g) = fst ` facts \<union> snd ` facts
             \<and> distinct (dg_nodes g)
             \<and> set (map (\<lambda>e. (e_from e, e_to e)) (dg_edges g)) = facts
             \<and> distinct (map (\<lambda>e. (e_from e, e_to e)) (dg_edges g))
             \<and> e_from ` set (dg_edges g) \<union> e_to ` set (dg_edges g) \<subseteq> set (dg_nodes g))"
proof -
  let ?m = "mapper_of_facts inv0 cf nf vf pf"
  let ?deps = "all_dependencies ?m"
  from build_dependency_graph_in_total [of ?m "all_nodes ?deps"]
  obtain g where g: "build_dependency_graph ?m = Some g"
    and n: "dg_nodes g = all_nodes ?deps" and e: "dg_edges g = graph_edges ?deps"
    unfolding build_dependency_graph_def by force
  note f = facts_nodes_edges [of inv0 cf nf vf pf]
  have "e_from ` set (dg_edges g) = fst ` set (dep_edges ?deps)"
       "e_to ` set (dg_edges g) = snd ` set (dep_edges ?deps)"
    unfolding e f(2) [symmetric] by (simp_all add: image_image)
  then have "e_from ` set (dg_edges g) \<union> e_to ` set (dg_edges g) \<subseteq> set (dg_nodes g)"
    unfolding n f(1) f(3) by auto
  then have "let facts = set (cf @ nf @ vf @ pf)
            in set (dg_nodes g) = fst ` facts \<union> snd ` facts
             \<and> distinct (dg_nodes g)
             \<and> set (map (\<lambda>e. (e_from e, e_to e)) (dg_edges g)) = facts
             \<and> distinct (map (\<lambda>e. (e_from e, e_to e)) (dg_edges g))
             \<and> e_from ` set (dg_edges g) \<union> e_to ` set (dg_edges g) \<subseteq> set (dg_nodes g)"
    unfolding Let_def n e f(2) using f(1,3,4) distinct_all_nodes [of ?deps] by simp
  with g show ?thesis by blast
qed

theorem build_graph_nodes_edges_witness:
  "\<exists>g. build_dependency_graph (mapper_of_facts [''web'']
          [(''web'', ''db'')] [(''web'', ''db''), (''db'', ''web'')] [] [(''web'', ''cache'')])
        = Some g
     \<and> set (dg_nodes g) = {''web'', ''db'', ''cache''}
     \<and> set (map (\<lambda>e. (e_from e, e_to e)) (dg_edges g))
         = {(''web'', ''db''), (''db'', ''web''), (''web'', ''cache'')}
     \<and> length (dg_edges g) = 3"
proof -
  from build_graph_nodes_edges [of "[''web'']" "[(''web'', ''db'')]"
        "[(''web'', ''db''), (''db'', ''web'')]" "[]" "[(''web'', ''cache'')]"]
  obtain g where g: "build_dependency_graph (mapper_of_facts [''web'']
          [(''web'', ''db'')] [(''web'', ''db''), (''db'', ''web'')] [] [(''web'', ''cache'')])
        = Some g"
    and s: "set (dg_nodes g) = {''web'', ''db'', ''cache''}"
      "set (map (\<lambda>e. (e_from e, e_to e)) (dg_edges g))
         = {(''web'', ''db''), (''db'', ''web''), (''web'', ''cache'')}"
    and d: "distinct (map (\<lambda>e. (e_from e, e_to e)) (dg_edges g))"
    unfolding Let_def by auto
  have "card (set (map (\<lambda>e. (e_from e, e_to e)) (dg_edges g))) = 3"
    unfolding s(2) by simp
  then have "length (dg_edges g) = 3"
    using d by (metis distinct_card length_map)
  with g s show ?thesis by blast
qed

text \<open>
  Claim C7, as stated, fails: the builder has no filter. A fact whose source equals its
  target (a compose service that lists itself under \<open>depends_on\<close>) yields a self-loop
  edge in the built graph, and the detector reports it as a cycle.
\<close>

theorem self_loop_kept_counterexample:
  "build_dependency_graph (mapper_of_facts [] [] [] [] [(''a'', ''a'')])
     = Some \<lparr>dg_nodes = [''a''],
             dg_edges = [\<lparr>e_from = ''a'', e_to = ''a'', e_type = ''depends_on''\<rparr>],
             dg_cycles = [[''a'', ''a'']],
             dg_startup_order = []\<rparr>"
  by (simp add: graph_stage_defs)

text \<open>
  Claim C7, amended. The graph builder inserts every fact unfiltered: an edge from
  \<open>s\<close> to \<open>t\<close> is in the built edge list exactly when some input fact is the pair
  \<open>(s, t)\<close>, self-loops \<open>s = t\<close> included.
\<close>

theorem build_graph_keeps_every_fact:
  fixes cf nf vf pf :: "(node \<times> node) list"
  shows "\<exists>g. build_dependency_graph (mapper_of_facts inv0 cf nf vf pf) = Some g
         \<and> (\<forall>s t. \<lparr>e_from = s, e_to = t, e_type = ''depends_on''\<rparr> \<in> set (dg_edges g)
                   \<longleftrightarrow> (s, t) \<in> set (cf @ nf @ vf @ pf))"
proof -
  let ?m = "mapper_of_facts inv0 cf nf vf pf"
  from build_dependency_graph_in_total [of ?m "all_nodes (all_dependencies ?m)"]
  obtain g where g: "build_dependency_graph ?m = Some g"
    and e: "dg_edges g = graph_edges (all_dependencies ?m)"
    unfolding build_dependency_graph_def by force
  have "\<forall>s t. \<lparr>e_from = s, e_to = t, e_type = ''depends_on''\<rparr> \<in> set (dg_edges g)
                   \<longleftrightarrow> (s, t) \<in> set (cf @ nf @ vf @ pf)"
    unfolding e graph_edges_mem facts_graph(2) by simp
  with g show ?thesis by blast
qed

end
